theory Spec2Isabelle
  imports Complex_Main "HOL-Library.Char_ord" "HOL-Library.List_Lexorder" "HOL-Library.Multiset"
begin

section \<open>The ASCII tree generator of tree.py\<close>

text \<open>
  The program walks a directory tree and renders it with box-drawing connectors.
  Everything it learns about the outside comes through \<open>pathlib\<close>, \<open>os\<close> and
  \<open>fnmatch\<close>; the embedding collects these in one record, the \<open>world\<close>, that
  does not change during a run. A raised exception is the \<open>Inl\<close> of a sum type.
\<close>

subsection \<open>Paths, errors and the world outside the program\<close>

text \<open>
  \<open>main\<close> resolves the root before it calls the generator, and \<open>iterdir\<close> appends one
  name to its directory, so every \<open>Path\<close> the generator sees is absolute: the list of
  its components below the root \<open>/\<close>.
\<close>

type_synonym path = "string list"

text \<open>
  The exceptions that reach the program. \<open>OSError_ELOOP\<close> and \<open>OSError_EBADF\<close> are
  \<open>OSError\<close> with these error numbers, \<open>OSError\<close> stands for every other one.
  \<open>ignore_error\<close> is \<open>_ignore_error\<close> of \<open>pathlib\<close>: the error numbers ENOENT, ENOTDIR,
  EBADF and ELOOP.
\<close>

datatype pyerror =
    PermissionError | FileNotFoundError | NotADirectoryError | OSError_ELOOP | OSError_EBADF
  | OSError | ValueError

definition ignore_error :: "pyerror \<Rightarrow> bool" where
  "ignore_error e =
     (e = FileNotFoundError \<or> e = NotADirectoryError \<or> e = OSError_EBADF \<or> e = OSError_ELOOP)"

record stat_result =
  st_mode :: nat
  st_size :: nat
  st_mtime :: int

text \<open>
  \<open>os_stat\<close> follows symbolic links and \<open>os_lstat\<close> does not; \<open>os_listdir\<close> gives the
  names of a directory in the order the system returns them. \<open>st_mtime\<close> is a float in
  Python: only its order is used, and \<open>int\<close> stands for it. \<open>fnmatch\<close> is the library's
  glob matcher, \<open>str_lower\<close> is \<open>str.lower\<close> and \<open>fmt_6_1f\<close> the float formatting
  \<open>{size:6.1f}\<close>; the three are total, and they are left as parameters. A string is the
  list of its UTF-8 bytes, whose order is the order of Python's strings.
\<close>

record world =
  os_stat :: "path \<Rightarrow> pyerror + stat_result"
  os_lstat :: "path \<Rightarrow> pyerror + stat_result"
  os_listdir :: "path \<Rightarrow> pyerror + string list"
  cwd :: path
  fnmatch :: "string \<Rightarrow> string \<Rightarrow> bool"
  str_lower :: "string \<Rightarrow> string"
  fmt_6_1f :: "rat \<Rightarrow> string"

fun join :: "string \<Rightarrow> string list \<Rightarrow> string" where
  "join sep [] = []"
| "join sep [x] = x"
| "join sep (x # y # ys) = x @ sep @ join sep (y # ys)"

definition path_name :: "path \<Rightarrow> string" where
  "path_name p = (if p = [] then [] else last p)"

definition path_str :: "path \<Rightarrow> string" where
  "path_str p = ''/'' @ join ''/'' p"

definition iterdir_child :: "path \<Rightarrow> string \<Rightarrow> path" where
  "iterdir_child d n = d @ [n]"

text \<open>
  \<open>relative_to\<close> raises \<open>ValueError\<close> unless the other path is a prefix of this one;
  the string of the empty relative path is a dot.
\<close>

definition relative_to :: "path \<Rightarrow> path \<Rightarrow> pyerror + path" where
  "relative_to p other =
     (if take (length other) p = other then Inr (drop (length other) p) else Inl ValueError)"

definition rel_str :: "path \<Rightarrow> string" where
  "rel_str r = (if r = [] then ''.'' else join ''/'' r)"

text \<open>
  What a path names, as \<open>stat\<close> and \<open>lstat\<close> tell it by the file type bits of
  \<open>st_mode\<close> (bits 12 to 15: 4 a directory, 8 a regular file, 10 a symbolic link).
\<close>

definition S_IFMT :: "nat \<Rightarrow> nat" where
  "S_IFMT m = (m div 4096) mod 16"

definition directory_at :: "world \<Rightarrow> path \<Rightarrow> bool" where
  "directory_at w p = (case os_stat w p of Inl e \<Rightarrow> False | Inr st \<Rightarrow> S_IFMT (st_mode st) = 4)"

definition regular_file_at :: "world \<Rightarrow> path \<Rightarrow> bool" where
  "regular_file_at w p = (case os_stat w p of Inl e \<Rightarrow> False | Inr st \<Rightarrow> S_IFMT (st_mode st) = 8)"

definition symlink_at :: "world \<Rightarrow> path \<Rightarrow> bool" where
  "symlink_at w p = (case os_lstat w p of Inl e \<Rightarrow> False | Inr st \<Rightarrow> S_IFMT (st_mode st) = 10)"

text \<open>
  The type tests of \<open>pathlib\<close> as Python 3.11 and 3.12 define them: the test answers
  \<open>False\<close> when \<open>stat\<close> raises an error that \<open>_ignore_error\<close> accepts (a missing
  path, a dangling link) or a \<open>ValueError\<close>, and every other error, such as a denied
  permission, leaves the test.
\<close>

definition type_test :: "(pyerror + stat_result) \<Rightarrow> nat \<Rightarrow> pyerror + bool" where
  "type_test r kind =
     (case r of
        Inl e \<Rightarrow> if ignore_error e \<or> e = ValueError then Inr False else Inl e
      | Inr st \<Rightarrow> Inr (S_IFMT (st_mode st) = kind))"

definition is_dir :: "world \<Rightarrow> path \<Rightarrow> pyerror + bool" where
  "is_dir w p = type_test (os_stat w p) 4"

definition is_file :: "world \<Rightarrow> path \<Rightarrow> pyerror + bool" where
  "is_file w p = type_test (os_stat w p) 8"

definition is_symlink :: "world \<Rightarrow> path \<Rightarrow> pyerror + bool" where
  "is_symlink w p = type_test (os_lstat w p) 10"

text \<open>
  \<open>stat_answers\<close> says of a path that \<open>stat\<close> succeeds or fails with an error that
  the type tests take for the answer \<open>False\<close>.
\<close>

definition stat_answers :: "world \<Rightarrow> path \<Rightarrow> bool" where
  "stat_answers w p =
     (case os_stat w p of Inl e \<Rightarrow> ignore_error e \<or> e = ValueError | Inr st \<Rightarrow> True)"

subsection \<open>TreeConfig and the counters of TreeGenerator\<close>

text \<open>
  \<open>gitignore_patterns\<close> is a Python set; the list gives its elements in the order the
  loop of \<open>_should_ignore\<close> iterates over them.
\<close>

record tree_config =
  max_depth :: "int option"
  max_files :: "int option"
  dirs_only :: bool
  files_only :: bool
  show_hidden :: bool
  follow_links :: bool
  use_gitignore :: bool
  custom_ignore :: "string list"
  sort_by :: string
  reverse_sort :: bool
  show_size :: bool
  show_permissions :: bool
  full_path :: bool
  gitignore_patterns :: "string list"

record counters =
  file_count :: nat
  dir_count :: nat

text \<open>The box-drawing characters are written as their UTF-8 bytes.\<close>

definition PIPE :: string where
  "PIPE = [CHR 0xE2, CHR 0x94, CHR 0x82] @ ''   ''"

definition TEE :: string where
  "TEE = [CHR 0xE2, CHR 0x94, CHR 0x9C, CHR 0xE2, CHR 0x94, CHR 0x80, CHR 0xE2, CHR 0x94, CHR 0x80] @ '' ''"

definition ELBOW :: string where
  "ELBOW = [CHR 0xE2, CHR 0x94, CHR 0x94, CHR 0xE2, CHR 0x94, CHR 0x80, CHR 0xE2, CHR 0x94, CHR 0x80] @ '' ''"

definition BLANK :: string where
  "BLANK = ''    ''"

subsection \<open>\_should\_ignore\<close>

definition startswith_dot :: "string \<Rightarrow> bool" where
  "startswith_dot name = (case name of [] \<Rightarrow> False | ch # rest \<Rightarrow> ch = CHR ''.'')"

definition rstrip_slash :: "string \<Rightarrow> string" where
  "rstrip_slash pattern = rev (dropWhile (\<lambda>ch. ch = CHR ''/'') (rev pattern))"

text \<open>
  The loop over the gitignore patterns. \<open>relative_to\<close> is evaluated only for a stripped
  pattern that holds a slash and did not match the name, and its \<open>ValueError\<close> leaves
  the loop.
\<close>

fun gitignore_loop :: "world \<Rightarrow> path \<Rightarrow> string list \<Rightarrow> pyerror + bool" where
  "gitignore_loop w p [] = Inr False"
| "gitignore_loop w p (pat # pats) =
     (let pattern = rstrip_slash pat in
      if fnmatch w (path_name p) pattern then Inr True
      else if CHR ''/'' \<in> set pattern then
        (case relative_to p (cwd w) of
           Inl e \<Rightarrow> Inl e
         | Inr rel \<Rightarrow>
             if fnmatch w (rel_str rel) pattern then Inr True
             else gitignore_loop w p pats)
      else gitignore_loop w p pats)"

definition should_ignore :: "world \<Rightarrow> tree_config \<Rightarrow> path \<Rightarrow> pyerror + bool" where
  "should_ignore w c p =
     (let name = path_name p in
      if \<not> show_hidden c \<and> startswith_dot name then Inr True
      else if list_ex (\<lambda>pattern. fnmatch w name pattern) (custom_ignore c) then Inr True
      else if use_gitignore c then gitignore_loop w p (gitignore_patterns c)
      else Inr False)"

subsection \<open>\_format\_size\<close>

text \<open>
  The loop over the units divides by 1024 until the size is below 1024; the number is
  printed by the float formatting of the world.
\<close>

fun format_size_units :: "world \<Rightarrow> rat \<Rightarrow> string list \<Rightarrow> string" where
  "format_size_units w sz [] = fmt_6_1f w sz @ '' PB''"
| "format_size_units w sz (u # us) =
     (if sz < 1024 then fmt_6_1f w sz @ '' '' @ u
      else format_size_units w (sz / 1024) us)"

definition format_size :: "world \<Rightarrow> nat \<Rightarrow> string" where
  "format_size w sz = format_size_units w (of_nat sz) [''B'', ''KB'', ''MB'', ''GB'', ''TB'']"

subsection \<open>\_get\_sort\_key and the sorting of entries\<close>

definition key_name :: "world \<Rightarrow> path \<Rightarrow> pyerror + string" where
  "key_name w p = Inr (str_lower w (path_name p))"

definition key_size :: "world \<Rightarrow> path \<Rightarrow> pyerror + nat" where
  "key_size w p =
     (case is_file w p of
        Inl e \<Rightarrow> Inl e
      | Inr True \<Rightarrow> (case os_stat w p of Inl e \<Rightarrow> Inl e | Inr st \<Rightarrow> Inr (st_size st))
      | Inr False \<Rightarrow> Inr 0)"

definition key_modified :: "world \<Rightarrow> path \<Rightarrow> pyerror + int" where
  "key_modified w p = (case os_stat w p of Inl e \<Rightarrow> Inl e | Inr st \<Rightarrow> Inr (st_mtime st))"

text \<open>
  Python's sort computes the key of every element first, in order, and the first key
  that raises ends the sort. The sort is stable, and with \<open>reverse=True\<close> elements with
  equal keys still keep their order: the reversed stable sort of the reversed list.
\<close>

fun keys_of :: "('a \<Rightarrow> pyerror + 'k) \<Rightarrow> 'a list \<Rightarrow> pyerror + 'k list" where
  "keys_of key [] = Inr []"
| "keys_of key (x # xs) =
     (case key x of
        Inl e \<Rightarrow> Inl e
      | Inr k \<Rightarrow> (case keys_of key xs of Inl e \<Rightarrow> Inl e | Inr ks \<Rightarrow> Inr (k # ks)))"

definition py_sorted :: "('a \<Rightarrow> pyerror + 'k::linorder) \<Rightarrow> bool \<Rightarrow> 'a list \<Rightarrow> pyerror + 'a list" where
  "py_sorted key reverse xs =
     (case keys_of key xs of
        Inl e \<Rightarrow> Inl e
      | Inr ks \<Rightarrow>
          Inr (map snd (if reverse then rev (sort_key fst (rev (zip ks xs)))
                        else sort_key fst (zip ks xs))))"

definition sort_entries :: "world \<Rightarrow> tree_config \<Rightarrow> path list \<Rightarrow> pyerror + path list" where
  "sort_entries w c entries =
     (if sort_by c = ''size'' then py_sorted (key_size w) (reverse_sort c) entries
      else if sort_by c = ''modified'' then py_sorted (key_modified w) (reverse_sort c) entries
      else py_sorted (key_name w) (reverse_sort c) entries)"

subsection \<open>\_get\_entries\<close>

text \<open>
  The list comprehension over \<open>iterdir\<close>: the children that the ignore policy keeps,
  or the first exception that \<open>_should_ignore\<close> raises.
\<close>

fun visible :: "world \<Rightarrow> tree_config \<Rightarrow> path \<Rightarrow> string list \<Rightarrow> pyerror + path list" where
  "visible w c directory [] = Inr []"
| "visible w c directory (n # ns) =
     (case should_ignore w c (iterdir_child directory n) of
        Inl e \<Rightarrow> Inl e
      | Inr ign \<Rightarrow>
          (case visible w c directory ns of
             Inl e \<Rightarrow> Inl e
           | Inr es \<Rightarrow> Inr (if ign then es else iterdir_child directory n # es)))"

definition list_visible :: "world \<Rightarrow> tree_config \<Rightarrow> path \<Rightarrow> pyerror + path list" where
  "list_visible w c directory =
     (case os_listdir w directory of Inl e \<Rightarrow> Inl e | Inr names \<Rightarrow> visible w c directory names)"

text \<open>
  A list comprehension with a condition that may raise: the elements for which the test
  answers \<open>True\<close>, or the first exception.
\<close>

fun filter_py :: "('a \<Rightarrow> pyerror + bool) \<Rightarrow> 'a list \<Rightarrow> pyerror + 'a list" where
  "filter_py test [] = Inr []"
| "filter_py test (x # xs) =
     (case test x of
        Inl e \<Rightarrow> Inl e
      | Inr b \<Rightarrow>
          (case filter_py test xs of
             Inl e \<Rightarrow> Inl e
           | Inr ys \<Rightarrow> Inr (if b then x # ys else ys)))"

text \<open>
  The rest of \<open>_get_entries\<close>, after the listing: the type filter, the sort, and the
  regrouping into directories and files, both comprehensions of which are evaluated
  before either group is sorted.
\<close>

definition arrange :: "world \<Rightarrow> tree_config \<Rightarrow> path list \<Rightarrow> pyerror + path list" where
  "arrange w c entries0 =
     (case (if dirs_only c then filter_py (is_dir w) entries0
            else if files_only c then filter_py (is_file w) entries0
            else Inr entries0) of
        Inl e \<Rightarrow> Inl e
      | Inr entries1 \<Rightarrow>
          (case sort_entries w c entries1 of
             Inl e \<Rightarrow> Inl e
           | Inr entries2 \<Rightarrow>
               if \<not> files_only c \<and> \<not> dirs_only c then
                 (case filter_py (is_dir w) entries2 of
                    Inl e \<Rightarrow> Inl e
                  | Inr dirs \<Rightarrow>
                      (case filter_py (is_file w) entries2 of
                         Inl e \<Rightarrow> Inl e
                       | Inr files \<Rightarrow>
                           (case sort_entries w c dirs of
                              Inl e \<Rightarrow> Inl e
                            | Inr sorted_dirs \<Rightarrow>
                                (case sort_entries w c files of
                                   Inl e \<Rightarrow> Inl e
                                 | Inr sorted_files \<Rightarrow> Inr (sorted_dirs @ sorted_files)))))
               else Inr entries2))"

text \<open>The \<open>try\<close> around the listing catches \<open>PermissionError\<close> and nothing else.\<close>

definition get_entries :: "world \<Rightarrow> tree_config \<Rightarrow> path \<Rightarrow> pyerror + path list" where
  "get_entries w c directory =
     (case list_visible w c directory of
        Inl e \<Rightarrow> (if e = PermissionError then Inr [] else Inl e)
      | Inr entries \<Rightarrow> arrange w c entries)"

subsection \<open>\_format\_entry\<close>

fun oct_digits :: "nat \<Rightarrow> string" where
  "oct_digits n =
     (if n < 8 then [char_of (48 + n)] else oct_digits (n div 8) @ [char_of (48 + n mod 8)])"

declare oct_digits.simps [simp del]

definition oct :: "nat \<Rightarrow> string" where
  "oct n = ''0o'' @ oct_digits n"

definition last3 :: "string \<Rightarrow> string" where
  "last3 s = drop (length s - 3) s"

text \<open>
  The two type tests stand outside the \<open>try\<close> blocks, so what they raise leaves
  \<open>_format_entry\<close>; \<open>is_file\<close> is evaluated under \<open>show_size\<close> only. Both \<open>try\<close>
  blocks have a bare \<open>except\<close>: a failed \<open>stat\<close> leaves the name as it is.
\<close>

definition format_entry :: "world \<Rightarrow> tree_config \<Rightarrow> path \<Rightarrow> pyerror + string" where
  "format_entry w c p =
     (let name0 = (if full_path c then path_str p else path_name p) in
      case is_dir w p of
        Inl e \<Rightarrow> Inl e
      | Inr d \<Rightarrow>
          let name1 = (if d then name0 @ ''/'' else name0) in
          case (if show_size c then is_file w p else Inr False) of
            Inl e \<Rightarrow> Inl e
          | Inr f \<Rightarrow>
              let name2 = (if f then
                             (case os_stat w p of
                                Inl e \<Rightarrow> name1
                              | Inr st \<Rightarrow> name1 @ '' ('' @ format_size w (st_size st) @ '')'')
                           else name1);
                  name3 = (if show_permissions c then
                             (case os_stat w p of
                                Inl e \<Rightarrow> name2
                              | Inr st \<Rightarrow> ''['' @ last3 (oct (st_mode st)) @ ''] '' @ name2)
                           else name2)
              in Inr name3)"

subsection \<open>generate\<close>

text \<open>
  \<open>generate\<close> returns the lines of a directory joined by newlines, the block of a
  subdirectory being appended after the line of its entry. The embedding keeps the
  structure that the string flattens: a block is a list of nodes, one for each line that
  the loop of this call appends, and the node of an entry carries the block that the
  recursive call returned for it. \<open>block_text\<close> below is the returned string.
\<close>

datatype node =
    Entry (n_prefix: string) (n_connector: string) (n_path: path) (n_name: string)
      (n_is_dir: bool) (n_subtree: "node list")
  | LimitReached (n_prefix: string) (n_connector: string)
where
  "n_subtree (LimitReached p cn) = []"

definition depth_reached :: "tree_config \<Rightarrow> nat \<Rightarrow> bool" where
  "depth_reached c depth = (case max_depth c of None \<Rightarrow> False | Some k \<Rightarrow> int depth \<ge> k)"

definition limit_reached :: "tree_config \<Rightarrow> counters \<Rightarrow> bool" where
  "limit_reached c s = (case max_files c of None \<Rightarrow> False | Some m \<Rightarrow> int (file_count s) \<ge> m)"

text \<open>
  The counter update and the test that guards the recursion, each with the type tests
  it evaluates: \<open>entry.is_dir()\<close> for the counters, and
  \<open>entry.is_dir() and (follow_links or not entry.is_symlink())\<close> for the descent.
\<close>

definition count_entry :: "bool \<Rightarrow> counters \<Rightarrow> counters" where
  "count_entry d s =
     (if d then s\<lparr>dir_count := dir_count s + 1\<rparr> else s\<lparr>file_count := file_count s + 1\<rparr>)"

definition descends :: "world \<Rightarrow> tree_config \<Rightarrow> path \<Rightarrow> pyerror + bool" where
  "descends w c entry =
     (case is_dir w entry of
        Inl e \<Rightarrow> Inl e
      | Inr False \<Rightarrow> Inr False
      | Inr True \<Rightarrow>
          if follow_links c then Inr True
          else (case is_symlink w entry of Inl e \<Rightarrow> Inl e | Inr l \<Rightarrow> Inr (\<not> l)))"

text \<open>
  The recursion follows the file system, which may be unbounded (a cycle of symbolic
  links under \<open>follow_links\<close>), so \<open>generate\<close> takes fuel: the number of nested calls
  it may make. \<open>None\<close> means that the fuel ran out; \<open>Some (Inl e)\<close> that the exception
  \<open>e\<close> left the call; \<open>Some (Inr (block, s))\<close> that it returned \<open>block\<close> with the
  counters \<open>s\<close>. \<open>walk\<close> is the \<open>for\<close> loop over \<open>enumerate(entries)\<close>, from index
  \<open>i\<close>, with \<open>n = len(entries)\<close>.
\<close>

fun generate :: "nat \<Rightarrow> world \<Rightarrow> tree_config \<Rightarrow> path \<Rightarrow> string \<Rightarrow> nat \<Rightarrow> counters
      \<Rightarrow> (pyerror + node list \<times> counters) option"
  and walk :: "nat \<Rightarrow> world \<Rightarrow> tree_config \<Rightarrow> string \<Rightarrow> nat \<Rightarrow> nat \<Rightarrow> nat \<Rightarrow> path list \<Rightarrow> counters
      \<Rightarrow> (pyerror + node list \<times> counters) option"
where
  "generate 0 w c directory prefix depth s = None"
| "generate (Suc fuel) w c directory prefix depth s =
     (if depth_reached c depth then Some (Inr ([], s))
      else if limit_reached c s then Some (Inr ([], s))
      else (case is_dir w directory of
              Inl e \<Rightarrow> Some (Inl e)
            | Inr False \<Rightarrow> Some (Inr ([], s))
            | Inr True \<Rightarrow>
                (case get_entries w c directory of
                   Inl e \<Rightarrow> Some (Inl e)
                 | Inr entries \<Rightarrow> walk fuel w c prefix depth (length entries) 0 entries s)))"
| "walk fuel w c prefix depth n i [] s = Some (Inr ([], s))"
| "walk fuel w c prefix depth n i (entry # rest) s =
     (if limit_reached c s then Some (Inr ([LimitReached prefix ELBOW], s))
      else
        let is_last = (Suc i = n);
            connector = (if is_last then ELBOW else TEE)
        in
          case format_entry w c entry of
            Inl e \<Rightarrow> Some (Inl e)
          | Inr formatted_name \<Rightarrow>
              (case is_dir w entry of
                 Inl e \<Rightarrow> Some (Inl e)
               | Inr d \<Rightarrow>
                   (case descends w c entry of
                      Inl e \<Rightarrow> Some (Inl e)
                    | Inr True \<Rightarrow>
                        (case generate fuel w c entry (prefix @ (if is_last then BLANK else PIPE))
                                (depth + 1) (count_entry d s) of
                           None \<Rightarrow> None
                         | Some (Inl e) \<Rightarrow> Some (Inl e)
                         | Some (Inr (subtree, s2)) \<Rightarrow>
                             (case walk fuel w c prefix depth n (i + 1) rest s2 of
                                None \<Rightarrow> None
                              | Some (Inl e) \<Rightarrow> Some (Inl e)
                              | Some (Inr (out, s3)) \<Rightarrow>
                                  Some (Inr (Entry prefix connector entry formatted_name d subtree # out, s3))))
                    | Inr False \<Rightarrow>
                        (case walk fuel w c prefix depth n (i + 1) rest (count_entry d s) of
                           None \<Rightarrow> None
                         | Some (Inl e) \<Rightarrow> Some (Inl e)
                         | Some (Inr (out, s3)) \<Rightarrow>
                             Some (Inr (Entry prefix connector entry formatted_name d [] # out, s3))))))"

text \<open>
  What the loop evaluates for an entry before it goes on: the formatted name, the
  directory test for the counters and the test for the descent, or the first exception.
\<close>

definition entry_head :: "world \<Rightarrow> tree_config \<Rightarrow> path \<Rightarrow> pyerror + string \<times> bool \<times> bool" where
  "entry_head w c entry =
     (case format_entry w c entry of
        Inl e \<Rightarrow> Inl e
      | Inr name \<Rightarrow>
          (case is_dir w entry of
             Inl e \<Rightarrow> Inl e
           | Inr d \<Rightarrow> (case descends w c entry of Inl e \<Rightarrow> Inl e | Inr b \<Rightarrow> Inr (name, d, b))))"

subsection \<open>Reading a block\<close>

text \<open>
  The lines of a block in the order of the returned string: the line of a node, then the
  lines of its subtree. \<open>block_levels\<close> pairs each line with the depth of the call
  that appended it, and \<open>blocks\<close> lists every sibling list of the output: the block
  itself and the block under each of its nodes.
\<close>

fun node_lines :: "node \<Rightarrow> node list" where
  "node_lines (Entry p cn pa nm d sub) = Entry p cn pa nm d sub # concat (map node_lines sub)"
| "node_lines (LimitReached p cn) = [LimitReached p cn]"

definition block_lines :: "node list \<Rightarrow> node list" where
  "block_lines b = concat (map node_lines b)"

fun node_levels :: "nat \<Rightarrow> node \<Rightarrow> (nat \<times> node) list" where
  "node_levels k (Entry p cn pa nm d sub) =
     (k, Entry p cn pa nm d sub) # concat (map (node_levels (Suc k)) sub)"
| "node_levels k (LimitReached p cn) = [(k, LimitReached p cn)]"

definition block_levels :: "nat \<Rightarrow> node list \<Rightarrow> (nat \<times> node) list" where
  "block_levels k b = concat (map (node_levels k) b)"

fun node_blocks :: "node \<Rightarrow> node list list" where
  "node_blocks (Entry p cn pa nm d sub) = sub # concat (map node_blocks sub)"
| "node_blocks (LimitReached p cn) = []"

definition blocks :: "node list \<Rightarrow> node list list" where
  "blocks b = b # concat (map node_blocks b)"

fun is_limit :: "node \<Rightarrow> bool" where
  "is_limit (Entry p cn pa nm d sub) = False"
| "is_limit (LimitReached p cn) = True"

fun is_file_line :: "node \<Rightarrow> bool" where
  "is_file_line (Entry p cn pa nm d sub) = (\<not> d)"
| "is_file_line (LimitReached p cn) = False"

fun is_dir_line :: "node \<Rightarrow> bool" where
  "is_dir_line (Entry p cn pa nm d sub) = d"
| "is_dir_line (LimitReached p cn) = False"

fun node_text :: "node \<Rightarrow> string" where
  "node_text (Entry p cn pa nm d sub) = p @ cn @ nm"
| "node_text (LimitReached p cn) = p @ cn @ ''... (file limit reached)''"

definition block_text :: "node list \<Rightarrow> string" where
  "block_text b = join [CHR 0x0A] (map node_text (block_lines b))"

text \<open>
  The string as the source builds it: for a node the loop appends the line of the node
  to \<open>output\<close> and then, if it is not empty, the string returned for the subtree;
  the call returns \<open>output\<close> joined by newlines. For the blocks that \<open>generate\<close>
  returns this is \<open>block_text\<close>, the lines of the block joined by newlines
  (\<open>generate_returned_text\<close> below).
\<close>

fun node_output :: "node \<Rightarrow> string list" where
  "node_output (Entry p cn pa nm d sub) =
     (p @ cn @ nm) #
     (let subtree = join [CHR 0x0A] (concat (map node_output sub))
      in if subtree \<noteq> [] then [subtree] else [])"
| "node_output (LimitReached p cn) = [p @ cn @ ''... (file limit reached)'']"

definition returned_text :: "node list \<Rightarrow> string" where
  "returned_text b = join [CHR 0x0A] (concat (map node_output b))"

subsection \<open>Where the limit marker may stand\<close>

text \<open>
  \<open>limit_closes\<close> says of one sibling list that it holds at most one limit marker, and
  that a marker stands last and has the elbow connector. \<open>limit_last\<close> is the same
  property by recursion over the list.
\<close>

fun limit_last :: "node list \<Rightarrow> bool" where
  "limit_last [] = True"
| "limit_last (x # xs) = (if is_limit x then xs = [] \<and> n_connector x = ELBOW else limit_last xs)"

definition limit_closes :: "node list \<Rightarrow> bool" where
  "limit_closes b =
     (length (filter is_limit b) \<le> 1 \<and>
      (\<forall>j<length b. is_limit (b ! j) \<longrightarrow> n_connector (b ! j) = ELBOW \<and> Suc j = length b))"

subsection \<open>What is said of a block\<close>

text \<open>
  \<open>sibling_ok\<close> is what the loop of a call with this \<open>prefix\<close> and \<open>depth\<close> promises
  for the node it appends for \<open>entry\<close>, \<open>is_last\<close> telling whether the entry is the last
  one of the listing: the node starts with the prefix of the call; unless it is the limit
  marker it is the line of that entry, with the elbow connector if the entry is last and
  the tee connector otherwise, and its subtree is empty or the block that \<open>generate\<close>
  returned for the entry under the continued prefix, which every line of the subtree
  starts with.
\<close>

definition sibling_ok ::
  "nat \<Rightarrow> world \<Rightarrow> tree_config \<Rightarrow> string \<Rightarrow> nat \<Rightarrow> path \<Rightarrow> bool \<Rightarrow> node \<Rightarrow> bool" where
  "sibling_ok fuel w c prefix depth entry is_last x =
     (n_prefix x = prefix \<and>
      (is_limit x \<or>
       (n_path x = entry \<and>
        n_connector x = (if is_last then ELBOW else TEE) \<and>
        (n_subtree x = [] \<or>
         (\<exists>s1 s2. generate fuel w c entry (prefix @ (if is_last then BLANK else PIPE))
                     (Suc depth) s1 = Some (Inr (n_subtree x, s2)))) \<and>
        (\<forall>y \<in> set (n_subtree x). n_prefix y = prefix @ (if is_last then BLANK else PIPE)))))"

text \<open>
  The sort keys in the words of the specification, as facts of the world: the
  lower-cased base name; the size in bytes, 0 for a directory; the time of the last
  modification. A list of keys is in order when it ascends, or descends under
  \<open>reverse\<close>, and \<open>spec_ordered\<close> takes the key that \<open>sort_by\<close> names.
\<close>

definition spec_name :: "world \<Rightarrow> path \<Rightarrow> string" where
  "spec_name w p = str_lower w (path_name p)"

definition spec_size :: "world \<Rightarrow> path \<Rightarrow> nat" where
  "spec_size w p =
     (if directory_at w p then 0
      else (case os_stat w p of Inl e \<Rightarrow> 0 | Inr st \<Rightarrow> st_size st))"

definition spec_modified :: "world \<Rightarrow> path \<Rightarrow> int" where
  "spec_modified w p = (case os_stat w p of Inl e \<Rightarrow> 0 | Inr st \<Rightarrow> st_mtime st)"

definition in_order :: "bool \<Rightarrow> ('k::linorder) list \<Rightarrow> bool" where
  "in_order reverse ks = (if reverse then sorted (rev ks) else sorted ks)"

definition spec_ordered :: "world \<Rightarrow> tree_config \<Rightarrow> path list \<Rightarrow> bool" where
  "spec_ordered w c xs =
     (if sort_by c = ''size'' then in_order (reverse_sort c) (map (spec_size w) xs)
      else if sort_by c = ''modified'' then in_order (reverse_sort c) (map (spec_modified w) xs)
      else in_order (reverse_sort c) (map (spec_name w) xs))"

text \<open>
  What the sort of the source achieves, in terms of its own key: every key can be read
  and the keys are in order.
\<close>

definition ordered_by :: "('a \<Rightarrow> pyerror + 'k::linorder) \<Rightarrow> bool \<Rightarrow> 'a list \<Rightarrow> bool" where
  "ordered_by key reverse xs =
     (case keys_of key xs of Inl e \<Rightarrow> False | Inr ks \<Rightarrow> in_order reverse ks)"

text \<open>
  A line is well typed when it is the limit marker, a directory line of a directory or a
  file line of a regular file. \<open>unfollowed_link\<close> says of a line whose entry is a
  symbolic link to a directory that it is a directory line with a trailing slash and
  nothing beneath it.
\<close>

definition line_typed :: "world \<Rightarrow> node \<Rightarrow> bool" where
  "line_typed w x =
     (is_limit x \<or>
      (if n_is_dir x then directory_at w (n_path x) else regular_file_at w (n_path x)))"

definition ends_with_slash :: "string \<Rightarrow> bool" where
  "ends_with_slash name = (name \<noteq> [] \<and> last name = CHR ''/'')"

definition unfollowed_link :: "world \<Rightarrow> node \<Rightarrow> bool" where
  "unfollowed_link w x =
     (is_limit x \<or> \<not> (directory_at w (n_path x) \<and> symlink_at w (n_path x)) \<or>
      (n_is_dir x \<and> n_subtree x = [] \<and> ends_with_slash (n_name x)))"

text \<open>
  The exclusion rules in the words of the specification: the hidden-file rule, the
  custom patterns, the gitignore patterns matched against the base name, and the three
  of them together. \<open>rule_gitignore_path\<close> is the match of a pattern that holds a
  slash against the path relative to the working directory.
\<close>

definition rule_hidden :: "tree_config \<Rightarrow> path \<Rightarrow> bool" where
  "rule_hidden c p = (\<not> show_hidden c \<and> startswith_dot (path_name p))"

definition rule_custom :: "world \<Rightarrow> tree_config \<Rightarrow> path \<Rightarrow> bool" where
  "rule_custom w c p = (\<exists>pattern \<in> set (custom_ignore c). fnmatch w (path_name p) pattern)"

definition rule_gitignore_name :: "world \<Rightarrow> tree_config \<Rightarrow> path \<Rightarrow> bool" where
  "rule_gitignore_name w c p =
     (use_gitignore c \<and>
      (\<exists>pat \<in> set (gitignore_patterns c). fnmatch w (path_name p) (rstrip_slash pat)))"

definition rule_gitignore_path :: "world \<Rightarrow> tree_config \<Rightarrow> path \<Rightarrow> bool" where
  "rule_gitignore_path w c rel =
     (use_gitignore c \<and>
      (\<exists>pat \<in> set (gitignore_patterns c).
         CHR ''/'' \<in> set (rstrip_slash pat) \<and> fnmatch w (rel_str rel) (rstrip_slash pat)))"

definition three_rules :: "world \<Rightarrow> tree_config \<Rightarrow> path \<Rightarrow> bool" where
  "three_rules w c p = (rule_hidden c p \<or> rule_custom w c p \<or> rule_gitignore_name w c p)"

subsection \<open>A sample world\<close>

text \<open>
  A small file system for the examples, given by tables: the \<open>stat\<close> results (mode,
  size, modification time) or the error of \<open>stat\<close>, the modes of the symbolic links,
  and the directory listings. The working directory is \<open>/w\<close>. \<open>/w/gone\<close> is a
  dangling link, \<open>/w/link\<close> a link to a directory, \<open>/w/fifo\<close> a named pipe; listing
  \<open>/w/locked\<close> is denied, listing \<open>/io\<close> fails with an I/O error, and \<open>/dep\<close>
  can be listed but \<open>stat\<close> of its child \<open>vault\<close> is denied. \<open>/mix\<close> holds names
  in both cases and files of different sizes and times, listed in no order. \<open>glob\<close> matches the patterns made of literal
  characters, \<open>?\<close> and \<open>*\<close>, as \<open>fnmatch\<close> does, and \<open>ascii_lower\<close> lower-cases the
  letters A to Z, as \<open>str.lower\<close> does on the names of this world.
\<close>

fun glob :: "string \<Rightarrow> string \<Rightarrow> bool" where
  "glob [] [] = True"
| "glob (ch # name) [] = False"
| "glob [] (p # pattern) = (p = CHR ''*'' \<and> glob [] pattern)"
| "glob (ch # name) (p # pattern) =
     (if p = CHR ''*'' then glob (ch # name) pattern \<or> glob name (p # pattern)
      else (p = CHR ''?'' \<or> p = ch) \<and> glob name pattern)"

definition ascii_lower :: "char \<Rightarrow> char" where
  "ascii_lower ch =
     (case map_of (zip ''ABCDEFGHIJKLMNOPQRSTUVWXYZ'' ''abcdefghijklmnopqrstuvwxyz'') ch of
        None \<Rightarrow> ch
      | Some l \<Rightarrow> l)"

definition stat_of :: "(pyerror + nat \<times> nat \<times> int) option \<Rightarrow> pyerror + stat_result" where
  "stat_of r =
     (case r of
        None \<Rightarrow> Inl FileNotFoundError
      | Some (Inl e) \<Rightarrow> Inl e
      | Some (Inr (m, sz, t)) \<Rightarrow> Inr \<lparr>st_mode = m, st_size = sz, st_mtime = t\<rparr>)"

definition table_world ::
  "(path \<times> (pyerror + nat \<times> nat \<times> int)) list \<Rightarrow> (path \<times> nat) list \<Rightarrow>
   (path \<times> (pyerror + string list)) list \<Rightarrow> path \<Rightarrow> world" where
  "table_world stats links listings wd =
     \<lparr>os_stat = (\<lambda>p. stat_of (map_of stats p)),
      os_lstat = (\<lambda>p. case map_of links p of
                         Some m \<Rightarrow> Inr \<lparr>st_mode = m, st_size = 0, st_mtime = 0\<rparr>
                       | None \<Rightarrow> stat_of (map_of stats p)),
      os_listdir = (\<lambda>p. case map_of listings p of None \<Rightarrow> Inl NotADirectoryError | Some r \<Rightarrow> r),
      cwd = wd,
      fnmatch = glob,
      str_lower = map ascii_lower,
      fmt_6_1f = (\<lambda>q. ''   n.n'')\<rparr>"

definition demo_world :: world where
  "demo_world = table_world
     [([''w''], Inr (16877, 4096, 20)),
      ([''w'', ''b.txt''], Inr (33188, 2048, 5)),
      ([''w'', ''sub''], Inr (16877, 4096, 3)),
      ([''w'', ''sub'', ''c.txt''], Inr (33188, 7, 1)),
      ([''w'', ''a.txt''], Inr (33188, 10, 9)),
      ([''w'', ''.secret''], Inr (33188, 1, 2)),
      ([''w'', ''link''], Inr (16877, 4096, 3)),
      ([''w'', ''link'', ''c.txt''], Inr (33188, 7, 1)),
      ([''w'', ''fifo''], Inr (4516, 0, 4)),
      ([''w'', ''locked''], Inr (16877, 4096, 6)),
      ([''io''], Inr (16877, 4096, 6)),
      ([''srv''], Inr (16877, 4096, 6)),
      ([''srv'', ''notes.txt''], Inr (33188, 3, 8)),
      ([''mix''], Inr (16877, 4096, 7)),
      ([''mix'', ''c.txt''], Inr (33188, 9, 2)),
      ([''mix'', ''Zeta''], Inr (16877, 4096, 4)),
      ([''mix'', ''B.txt''], Inr (33188, 1, 3)),
      ([''mix'', ''beta''], Inr (16877, 4096, 6)),
      ([''mix'', ''a.txt''], Inr (33188, 5, 1)),
      ([''dep''], Inr (16877, 4096, 6)),
      ([''dep'', ''vault''], Inl PermissionError)]
     [([''w'', ''gone''], 41471), ([''w'', ''link''], 41471)]
     [([''w''], Inr [''b.txt'', ''sub'', ''a.txt'', ''.secret'', ''gone'', ''link'', ''fifo'', ''locked'']),
      ([''w'', ''sub''], Inr [''c.txt'']),
      ([''w'', ''link''], Inr [''c.txt'']),
      ([''w'', ''locked''], Inl PermissionError),
      ([''io''], Inl OSError),
      ([''srv''], Inr [''notes.txt'']),
      ([''mix''], Inr [''c.txt'', ''Zeta'', ''B.txt'', ''beta'', ''a.txt'']),
      ([''mix'', ''Zeta''], Inr []),
      ([''mix'', ''beta''], Inr []),
      ([''dep''], Inr [''vault''])]
     [''w'']"

definition default_config :: tree_config where
  "default_config =
     \<lparr>max_depth = None, max_files = None, dirs_only = False, files_only = False,
      show_hidden = False, follow_links = False, use_gitignore = False, custom_ignore = [],
      sort_by = ''name'', reverse_sort = False, show_size = False, show_permissions = False,
      full_path = False, gitignore_patterns = []\<rparr>"

definition fresh :: counters where
  "fresh = \<lparr>file_count = 0, dir_count = 0\<rparr>"

section \<open>Properties\<close>

subsection \<open>The type tests\<close>

lemma is_dir_True: "is_dir w p = Inr True \<longleftrightarrow> directory_at w p"
  by (auto simp: is_dir_def type_test_def directory_at_def split: sum.splits)

lemma is_file_True: "is_file w p = Inr True \<longleftrightarrow> regular_file_at w p"
  by (auto simp: is_file_def type_test_def regular_file_at_def split: sum.splits)

lemma is_symlink_True: "is_symlink w p = Inr True \<longleftrightarrow> symlink_at w p"
  by (auto simp: is_symlink_def type_test_def symlink_at_def split: sum.splits)

lemma is_dir_Inr: "is_dir w p = Inr b \<Longrightarrow> b = directory_at w p"
  using is_dir_True [of w p] by (cases b) auto

lemma is_file_Inr: "is_file w p = Inr b \<Longrightarrow> b = regular_file_at w p"
  using is_file_True [of w p] by (cases b) auto

lemma is_symlink_Inr: "is_symlink w p = Inr b \<Longrightarrow> b = symlink_at w p"
  using is_symlink_True [of w p] by (cases b) auto

lemma is_dir_False:
  "is_dir w p = Inr False \<longleftrightarrow>
     (case os_stat w p of
        Inl e \<Rightarrow> ignore_error e \<or> e = ValueError
      | Inr st \<Rightarrow> S_IFMT (st_mode st) \<noteq> 4)"
  by (auto simp: is_dir_def type_test_def split: sum.splits)

lemma is_dir_raises:
  "is_dir w p = Inl e \<longleftrightarrow> os_stat w p = Inl e \<and> \<not> ignore_error e \<and> e \<noteq> ValueError"
  by (auto simp: is_dir_def type_test_def split: sum.splits)

lemma is_file_raises:
  "is_file w p = Inl e \<longleftrightarrow> os_stat w p = Inl e \<and> \<not> ignore_error e \<and> e \<noteq> ValueError"
  by (auto simp: is_file_def type_test_def split: sum.splits)

lemma directory_not_file: "directory_at w p \<Longrightarrow> \<not> regular_file_at w p"
  by (auto simp: directory_at_def regular_file_at_def split: sum.splits)

lemma descends_True:
  "descends w c entry = Inr True \<longleftrightarrow>
     is_dir w entry = Inr True \<and> (follow_links c \<or> is_symlink w entry = Inr False)"
  by (auto simp: descends_def split: sum.splits bool.splits)

lemma descends_False:
  "descends w c entry = Inr False \<longleftrightarrow>
     is_dir w entry = Inr False \<or>
     (is_dir w entry = Inr True \<and> \<not> follow_links c \<and> is_symlink w entry = Inr True)"
  by (auto simp: descends_def split: sum.splits bool.splits)

lemma filter_py_Inr:
  "filter_py test xs = Inr ys \<Longrightarrow>
     ys = filter (\<lambda>x. test x = Inr True) xs \<and> (\<forall>x \<in> set xs. \<exists>b. test x = Inr b)"
proof (induction xs arbitrary: ys)
  case Nil
  then show ?case by simp
next
  case (Cons x xs)
  then show ?case by (auto split: sum.splits if_splits)
qed

lemma filter_py_total:
  "\<forall>x \<in> set xs. \<exists>b. test x = Inr b \<Longrightarrow> \<exists>ys. filter_py test xs = Inr ys"
proof (induction xs)
  case Nil
  then show ?case by simp
next
  case (Cons x xs)
  then show ?case by (auto split: sum.splits)
qed

subsection \<open>One step of generate and of its loop\<close>

lemma walk_limit:
  "limit_reached c s \<Longrightarrow>
   walk fuel w c prefix depth n i (entry # rest) s = Some (Inr ([LimitReached prefix ELBOW], s))"
  by simp

lemma walk_Cons_Inr:
  assumes "walk fuel w c prefix depth n i (entry # rest) s = Some (Inr (out, s'))"
    and "\<not> limit_reached c s"
  shows "\<exists>name d b sub s2 out'.
      format_entry w c entry = Inr name \<and> is_dir w entry = Inr d \<and> descends w c entry = Inr b \<and>
      out = Entry prefix (if Suc i = n then ELBOW else TEE) entry name d sub # out' \<and>
      walk fuel w c prefix depth n (Suc i) rest s2 = Some (Inr (out', s')) \<and>
      (if b
       then generate fuel w c entry (prefix @ (if Suc i = n then BLANK else PIPE)) (Suc depth)
              (count_entry d s) = Some (Inr (sub, s2))
       else sub = [] \<and> s2 = count_entry d s)"
  using assms
  by (auto simp: Let_def split: if_splits option.splits sum.splits prod.splits bool.splits)

lemma generate_Suc_Inr:
  assumes "generate (Suc fuel) w c directory prefix depth s = Some (Inr (block, s'))"
  shows "(block = [] \<and> s' = s \<and>
            (depth_reached c depth \<or> limit_reached c s \<or> is_dir w directory = Inr False)) \<or>
         (\<not> depth_reached c depth \<and> \<not> limit_reached c s \<and> is_dir w directory = Inr True \<and>
            (\<exists>entries. get_entries w c directory = Inr entries \<and>
               walk fuel w c prefix depth (length entries) 0 entries s = Some (Inr (block, s'))))"
  using assms by (auto split: if_splits sum.splits bool.splits)

lemma generate_walk_induct:
  assumes stop: "\<And>fuel directory prefix depth s.
      depth_reached c depth \<or> limit_reached c s \<or> is_dir w directory = Inr False \<Longrightarrow>
      G (Suc fuel) directory prefix depth s [] s"
    and list: "\<And>fuel directory prefix depth s entries block s'.
      \<not> depth_reached c depth \<Longrightarrow> \<not> limit_reached c s \<Longrightarrow> is_dir w directory = Inr True \<Longrightarrow>
      get_entries w c directory = Inr entries \<Longrightarrow>
      walk fuel w c prefix depth (length entries) 0 entries s = Some (Inr (block, s')) \<Longrightarrow>
      W fuel prefix depth (length entries) 0 entries s block s' \<Longrightarrow>
      G (Suc fuel) directory prefix depth s block s'"
    and nil: "\<And>fuel prefix depth n i s. W fuel prefix depth n i [] s [] s"
    and limit: "\<And>fuel prefix depth n i entry rest s.
      limit_reached c s \<Longrightarrow>
      W fuel prefix depth n i (entry # rest) s [LimitReached prefix ELBOW] s"
    and leaf: "\<And>fuel prefix depth n i entry rest s name d out s'.
      \<not> limit_reached c s \<Longrightarrow>
      format_entry w c entry = Inr name \<Longrightarrow> is_dir w entry = Inr d \<Longrightarrow>
      descends w c entry = Inr False \<Longrightarrow>
      walk fuel w c prefix depth n (Suc i) rest (count_entry d s) = Some (Inr (out, s')) \<Longrightarrow>
      W fuel prefix depth n (Suc i) rest (count_entry d s) out s' \<Longrightarrow>
      W fuel prefix depth n i (entry # rest) s
        (Entry prefix (if Suc i = n then ELBOW else TEE) entry name d [] # out) s'"
    and descend: "\<And>fuel prefix depth n i entry rest s name sub s2 out s'.
      \<not> limit_reached c s \<Longrightarrow>
      format_entry w c entry = Inr name \<Longrightarrow> is_dir w entry = Inr True \<Longrightarrow>
      descends w c entry = Inr True \<Longrightarrow>
      generate fuel w c entry (prefix @ (if Suc i = n then BLANK else PIPE)) (Suc depth)
        (count_entry True s) = Some (Inr (sub, s2)) \<Longrightarrow>
      G fuel entry (prefix @ (if Suc i = n then BLANK else PIPE)) (Suc depth)
        (count_entry True s) sub s2 \<Longrightarrow>
      walk fuel w c prefix depth n (Suc i) rest s2 = Some (Inr (out, s')) \<Longrightarrow>
      W fuel prefix depth n (Suc i) rest s2 out s' \<Longrightarrow>
      W fuel prefix depth n i (entry # rest) s
        (Entry prefix (if Suc i = n then ELBOW else TEE) entry name True sub # out) s'"
  shows "(generate fuel w c directory prefix depth s = Some (Inr (block, s')) \<longrightarrow>
            G fuel directory prefix depth s block s') \<and>
         (walk fuel w c prefix depth n i entries s = Some (Inr (block, s')) \<longrightarrow>
            W fuel prefix depth n i entries s block s')"
proof -
  have walk_part: "W fuel prefix depth n i entries s out s'"
    if gen: "\<And>directory prefix depth s block s'.
          generate fuel w c directory prefix depth s = Some (Inr (block, s')) \<Longrightarrow>
          G fuel directory prefix depth s block s'"
      and ret: "walk fuel w c prefix depth n i entries s = Some (Inr (out, s'))"
    for fuel prefix depth n i entries s out s'
    using ret
  proof (induction entries arbitrary: i s out s')
    case Nil
    then show ?case using nil by simp
  next
    case (Cons entry rest)
    show ?case
    proof (cases "limit_reached c s")
      case True
      with Cons.prems have "out = [LimitReached prefix ELBOW]" and "s' = s"
        by simp_all
      with True show ?thesis using limit by simp
    next
      case False
      from walk_Cons_Inr [OF Cons.prems False]
      obtain name d b sub s2 out' where
        name: "format_entry w c entry = Inr name"
        and d: "is_dir w entry = Inr d"
        and b: "descends w c entry = Inr b"
        and out: "out = Entry prefix (if Suc i = n then ELBOW else TEE) entry name d sub # out'"
        and rest: "walk fuel w c prefix depth n (Suc i) rest s2 = Some (Inr (out', s'))"
        and sub: "if b
           then generate fuel w c entry (prefix @ (if Suc i = n then BLANK else PIPE)) (Suc depth)
                  (count_entry d s) = Some (Inr (sub, s2))
           else sub = [] \<and> s2 = count_entry d s"
        by blast
      have IH: "W fuel prefix depth n (Suc i) rest s2 out' s'"
        using Cons.IH [OF rest] .
      show ?thesis
      proof (cases b)
        case True
        with b d have dT: "d = True" and dirT: "is_dir w entry = Inr True"
          and bT: "descends w c entry = Inr True"
          by (simp_all add: descends_True)
        with sub True have g: "generate fuel w c entry (prefix @ (if Suc i = n then BLANK else PIPE))
            (Suc depth) (count_entry True s) = Some (Inr (sub, s2))"
          by simp
        from descend [OF False name dirT bT g gen [OF g] rest IH] dT out
        show ?thesis by simp
      next
        case no: False
        with sub have s: "sub = []" "s2 = count_entry d s"
          by simp_all
        from no b have bF: "descends w c entry = Inr False" by simp
        from leaf [OF False name d bF] rest IH out s show ?thesis by simp
      qed
    qed
  qed
  have gen_part: "generate fuel w c directory prefix depth s = Some (Inr (block, s')) \<Longrightarrow>
      G fuel directory prefix depth s block s'" for fuel directory prefix depth s block s'
  proof (induction fuel arbitrary: directory prefix depth s block s')
    case 0
    then show ?case by simp
  next
    case (Suc fuel)
    from generate_Suc_Inr [OF Suc.prems] consider
      (stop) "block = []" "s' = s"
        "depth_reached c depth \<or> limit_reached c s \<or> is_dir w directory = Inr False"
    | (list) entries where "\<not> depth_reached c depth" "\<not> limit_reached c s"
        "is_dir w directory = Inr True" "get_entries w c directory = Inr entries"
        "walk fuel w c prefix depth (length entries) 0 entries s = Some (Inr (block, s'))"
      by blast
    then show ?case
    proof cases
      case stop
      then show ?thesis using assms(1) by simp
    next
      case list
      have "W fuel prefix depth (length entries) 0 entries s block s'"
        using walk_part [OF Suc.IH list(5)] .
      with list show ?thesis using assms(2) by blast
    qed
  qed
  show ?thesis
    using gen_part walk_part [OF gen_part] by blast
qed

subsection \<open>Lines, levels and sibling lists\<close>

lemma block_lines_simps [simp]:
  "block_lines [] = []"
  "block_lines (x # xs) = node_lines x @ block_lines xs"
  by (simp_all add: block_lines_def)

lemma node_lines_Entry [simp]:
  "node_lines (Entry p cn pa nm d sub) = Entry p cn pa nm d sub # block_lines sub"
  by (simp add: block_lines_def)

declare node_lines.simps(1) [simp del]

lemma block_levels_simps [simp]:
  "block_levels k [] = []"
  "block_levels k (x # xs) = node_levels k x @ block_levels k xs"
  by (simp_all add: block_levels_def)

lemma node_levels_Entry [simp]:
  "node_levels k (Entry p cn pa nm d sub) = (k, Entry p cn pa nm d sub) # block_levels (Suc k) sub"
  by (simp add: block_levels_def)

declare node_levels.simps(1) [simp del]

lemma node_blocks_Entry [simp]:
  "node_blocks (Entry p cn pa nm d sub) = blocks sub"
  by (simp add: blocks_def)

declare node_blocks.simps(1) [simp del]

lemma blocks_Nil [simp]: "blocks [] = [[]]"
  by (simp add: blocks_def)

lemma Ball_blocks:
  "(\<forall>b \<in> set (blocks xs). P b) \<longleftrightarrow> P xs \<and> (\<forall>y \<in> set xs. \<forall>b \<in> set (node_blocks y). P b)"
  by (auto simp: blocks_def)

lemma limit_last_closes: "limit_last b \<Longrightarrow> limit_closes b"
proof (induction b)
  case Nil
  then show ?case by (simp add: limit_closes_def)
next
  case (Cons x xs)
  show ?case
  proof (cases "is_limit x")
    case True
    with Cons.prems show ?thesis by (simp add: limit_closes_def)
  next
    case False
    with Cons.prems have "limit_closes xs" using Cons.IH by simp
    with False show ?thesis
      by (auto simp: limit_closes_def nth_Cons split: nat.splits)
  qed
qed

lemma generate_levels:
  assumes k: "max_depth c = Some k"
  shows "(generate fuel w c directory prefix depth s = Some (Inr (block, s')) \<longrightarrow>
            (\<forall>(d, x) \<in> set (block_levels depth block). int d < k)) \<and>
         (walk fuel w c prefix depth n i entries s = Some (Inr (block, s')) \<longrightarrow>
            (int depth < k \<longrightarrow> (\<forall>(d, x) \<in> set (block_levels depth block). int d < k)))"
proof (rule generate_walk_induct
    [where G = "\<lambda>fuel directory prefix depth s block s'.
                  \<forall>(d, x) \<in> set (block_levels depth block). int d < k"
       and W = "\<lambda>fuel prefix depth n i entries s block s'.
                  int depth < k \<longrightarrow> (\<forall>(d, x) \<in> set (block_levels depth block). int d < k)"],
    goal_cases)
  case 1
  then show ?case by simp
next
  case 2
  then show ?case using k by (simp add: depth_reached_def)
next
  case 3
  then show ?case by simp
next
  case 4
  then show ?case by simp
next
  case 5
  then show ?case by simp
next
  case 6
  then show ?case by auto
qed

lemma generate_counts:
  "(generate fuel w c directory prefix depth s = Some (Inr (block, s')) \<longrightarrow>
      file_count s' = file_count s + length (filter is_file_line (block_lines block)) \<and>
      dir_count s' = dir_count s + length (filter is_dir_line (block_lines block))) \<and>
   (walk fuel w c prefix depth n i entries s = Some (Inr (block, s')) \<longrightarrow>
      file_count s' = file_count s + length (filter is_file_line (block_lines block)) \<and>
      dir_count s' = dir_count s + length (filter is_dir_line (block_lines block)))"
proof (rule generate_walk_induct
    [where G = "\<lambda>fuel directory prefix depth s block s'.
        file_count s' = file_count s + length (filter is_file_line (block_lines block)) \<and>
        dir_count s' = dir_count s + length (filter is_dir_line (block_lines block))"
       and W = "\<lambda>fuel prefix depth n i entries s block s'.
        file_count s' = file_count s + length (filter is_file_line (block_lines block)) \<and>
        dir_count s' = dir_count s + length (filter is_dir_line (block_lines block))"],
    goal_cases)
  case 1
  then show ?case by simp
next
  case 2
  then show ?case by simp
next
  case 3
  then show ?case by simp
next
  case 4
  then show ?case by simp
next
  case 5
  then show ?case by (simp add: count_entry_def)
next
  case 6
  then show ?case by (simp add: count_entry_def)
qed

lemma generate_file_bound:
  assumes m: "max_files c = Some m"
  shows "(generate fuel w c directory prefix depth s = Some (Inr (block, s')) \<longrightarrow>
            int (file_count s') \<le> max m (int (file_count s))) \<and>
         (walk fuel w c prefix depth n i entries s = Some (Inr (block, s')) \<longrightarrow>
            int (file_count s') \<le> max m (int (file_count s)))"
proof (rule generate_walk_induct
    [where G = "\<lambda>fuel directory prefix depth s block s'.
                  int (file_count s') \<le> max m (int (file_count s))"
       and W = "\<lambda>fuel prefix depth n i entries s block s'.
                  int (file_count s') \<le> max m (int (file_count s))"],
    goal_cases)
  case 1
  then show ?case by simp
next
  case 2
  then show ?case by simp
next
  case 3
  then show ?case by simp
next
  case 4
  then show ?case by simp
next
  case (5 fuel prefix depth n i entry rest s out s')
  then show ?case using m by (auto simp: count_entry_def limit_reached_def split: if_splits)
next
  case (6 fuel prefix depth n i entry rest s sub s2 out s')
  then show ?case using m by (auto simp: count_entry_def limit_reached_def split: if_splits)
qed

lemma generate_limit_last:
  "(generate fuel w c directory prefix depth s = Some (Inr (block, s')) \<longrightarrow>
      (\<forall>b \<in> set (blocks block). limit_last b)) \<and>
   (walk fuel w c prefix depth n i entries s = Some (Inr (block, s')) \<longrightarrow>
      (\<forall>b \<in> set (blocks block). limit_last b))"
proof (rule generate_walk_induct
    [where G = "\<lambda>fuel directory prefix depth s block s'. \<forall>b \<in> set (blocks block). limit_last b"
       and W = "\<lambda>fuel prefix depth n i entries s block s'. \<forall>b \<in> set (blocks block). limit_last b"],
    goal_cases)
  case 1
  then show ?case by simp
next
  case 2
  then show ?case by simp
next
  case 3
  then show ?case by simp
next
  case 4
  then show ?case by (simp add: Ball_blocks)
next
  case 5
  then show ?case by (simp add: Ball_blocks)
next
  case 6
  then show ?case by (simp add: Ball_blocks)
qed
subsection \<open>Depth, counters and connectors along the walk\<close>

lemma connectors_distinct: "ELBOW \<noteq> TEE \<and> BLANK \<noteq> PIPE"
  by (simp add: ELBOW_def TEE_def BLANK_def PIPE_def)

lemma generate_prefix:
  "(generate fuel w c directory prefix depth s = Some (Inr (block, s')) \<longrightarrow>
      (\<forall>x \<in> set block. n_prefix x = prefix)) \<and>
   (walk fuel w c prefix depth n i entries s = Some (Inr (block, s')) \<longrightarrow>
      (\<forall>x \<in> set block. n_prefix x = prefix))"
proof (rule generate_walk_induct
    [where G = "\<lambda>fuel directory prefix depth s block s'. \<forall>x \<in> set block. n_prefix x = prefix"
       and W = "\<lambda>fuel prefix depth n i entries s block s'. \<forall>x \<in> set block. n_prefix x = prefix"],
    goal_cases)
  case 1
  then show ?case by simp
next
  case 2
  then show ?case by simp
next
  case 3
  then show ?case by simp
next
  case 4
  then show ?case by simp
next
  case 5
  then show ?case by simp
next
  case 6
  then show ?case by simp
qed

lemma walk_siblings:
  "walk fuel w c prefix depth n i entries s = Some (Inr (out, s')) \<Longrightarrow>
   length out \<le> length entries \<and>
   (\<forall>j<length out. sibling_ok fuel w c prefix depth (entries ! j) (Suc (i + j) = n) (out ! j))"
proof (induction entries arbitrary: i s out s')
  case Nil
  then show ?case by simp
next
  case (Cons entry rest)
  show ?case
  proof (cases "limit_reached c s")
    case True
    with Cons.prems have "out = [LimitReached prefix ELBOW]"
      by auto
    then show ?thesis by (simp add: sibling_ok_def)
  next
    case False
    from walk_Cons_Inr [OF Cons.prems False]
    obtain name d b sub s2 out' where
      out: "out = Entry prefix (if Suc i = n then ELBOW else TEE) entry name d sub # out'"
      and rest: "walk fuel w c prefix depth n (Suc i) rest s2 = Some (Inr (out', s'))"
      and sub: "if b
         then generate fuel w c entry (prefix @ (if Suc i = n then BLANK else PIPE)) (Suc depth)
                (count_entry d s) = Some (Inr (sub, s2))
         else sub = [] \<and> s2 = count_entry d s"
      by blast
    from Cons.IH [OF rest]
    have len: "length out' \<le> length rest"
      and IH: "\<And>j. j < length out' \<Longrightarrow>
        sibling_ok fuel w c prefix depth (rest ! j) (Suc (Suc i + j) = n) (out' ! j)"
      by simp_all
    have pre: "\<forall>y \<in> set sub. n_prefix y = prefix @ (if Suc i = n then BLANK else PIPE)"
    proof (cases b)
      case True
      with sub show ?thesis using generate_prefix by meson
    next
      case False
      with sub show ?thesis by simp
    qed
    have head: "sibling_ok fuel w c prefix depth entry (Suc i = n)
        (Entry prefix (if Suc i = n then ELBOW else TEE) entry name d sub)"
      unfolding sibling_ok_def using sub pre
      by (auto split: if_splits)
    show ?thesis
    proof (intro conjI allI impI)
      show "length out \<le> length (entry # rest)"
        using out len by simp
    next
      fix j
      assume j: "j < length out"
      show "sibling_ok fuel w c prefix depth ((entry # rest) ! j) (Suc (i + j) = n) (out ! j)"
      proof (cases j)
        case 0
        with head out show ?thesis by simp
      next
        case (Suc j')
        with j out have "j' < length out'" by simp
        from IH [OF this] Suc out show ?thesis by simp
      qed
    qed
  qed
qed

lemma walk_all_or_limit:
  "walk fuel w c prefix depth n i entries s = Some (Inr (out, s')) \<Longrightarrow>
   length out = length entries \<and> (\<forall>x \<in> set out. \<not> is_limit x) \<or>
   (out \<noteq> [] \<and> is_limit (last out) \<and> n_connector (last out) = ELBOW)"
proof (induction entries arbitrary: i s out s')
  case Nil
  then show ?case by simp
next
  case (Cons entry rest)
  show ?case
  proof (cases "limit_reached c s")
    case True
    with Cons.prems have "out = [LimitReached prefix ELBOW]"
      by auto
    then show ?thesis by simp
  next
    case False
    from walk_Cons_Inr [OF Cons.prems False]
    obtain name d sub s2 out' where
      out: "out = Entry prefix (if Suc i = n then ELBOW else TEE) entry name d sub # out'"
      and rest: "walk fuel w c prefix depth n (Suc i) rest s2 = Some (Inr (out', s'))"
      by blast
    from Cons.IH [OF rest] out show ?thesis
      by auto
  qed
qed

lemma rendered_connectors:
  assumes "generate (Suc fuel) w c directory prefix depth s = Some (Inr (block, s'))"
    and j: "j < length block"
  shows "n_connector (block ! j) = (if Suc j = length block then ELBOW else TEE)"
proof -
  from j have ne: "block \<noteq> []" by auto
  from generate_Suc_Inr [OF assms(1)] ne
  obtain entries where e: "get_entries w c directory = Inr entries"
    and wk: "walk fuel w c prefix depth (length entries) 0 entries s = Some (Inr (block, s'))"
    by blast
  from walk_siblings [OF wk] j
  have len: "length block \<le> length entries"
    and ok: "sibling_ok fuel w c prefix depth (entries ! j) (Suc j = length entries) (block ! j)"
    by simp_all
  from walk_all_or_limit [OF wk] consider
    (all) "length block = length entries" "\<forall>x \<in> set block. \<not> is_limit x"
    | (lim) "is_limit (last block)" "n_connector (last block) = ELBOW"
    by blast
  then show ?thesis
  proof cases
    case all
    with j have "\<not> is_limit (block ! j)" by simp
    with ok all(1) show ?thesis by (simp add: sibling_ok_def)
  next
    case lim
    show ?thesis
    proof (cases "Suc j = length block")
      case True
      then have "j = length block - 1" by simp
      with ne have "block ! j = last block"
        by (simp add: last_conv_nth)
      with lim True show ?thesis by simp
    next
      case False
      with j len have nl: "Suc j \<noteq> length entries" by simp
      from generate_limit_last assms(1) have "limit_last block"
        by (metis Ball_blocks)
      then have "limit_closes block" by (rule limit_last_closes)
      with j False have "\<not> is_limit (block ! j)"
        by (auto simp: limit_closes_def)
      with ok nl False show ?thesis by (simp add: sibling_ok_def)
    qed
  qed
qed

subsection \<open>The returned string\<close>

lemma join_Cons: "ys \<noteq> [] \<Longrightarrow> join sep (x # ys) = x @ sep @ join sep ys"
  by (cases ys) simp_all

lemma join_append:
  "xs \<noteq> [] \<Longrightarrow> ys \<noteq> [] \<Longrightarrow> join sep (xs @ ys) = join sep xs @ sep @ join sep ys"
proof (induction xs)
  case Nil
  then show ?case by simp
next
  case (Cons x xs)
  show ?case
  proof (cases "xs = []")
    case True
    with Cons.prems show ?thesis by (simp add: join_Cons)
  next
    case False
    with Cons show ?thesis by (simp add: join_Cons)
  qed
qed

lemma join_concat:
  "\<forall>xs \<in> set xss. xs \<noteq> [] \<Longrightarrow> join sep (concat xss) = join sep (map (join sep) xss)"
proof (induction xss)
  case Nil
  then show ?case by simp
next
  case (Cons xs xss)
  show ?case
  proof (cases "xss = []")
    case True
    then show ?thesis by simp
  next
    case False
    with Cons.prems have "concat xss \<noteq> []"
      by (cases xss) auto
    with Cons False show ?thesis
      by (simp add: join_append join_Cons)
  qed
qed

lemma join_nonempty:
  assumes "xs \<noteq> []" and "\<forall>x \<in> set xs. x \<noteq> []"
  shows "join sep xs \<noteq> []"
proof (cases xs)
  case Nil
  with assms show ?thesis by simp
next
  case (Cons x ys)
  with assms show ?thesis by (cases ys) auto
qed

lemma node_lines_nonempty: "node_lines x \<noteq> []"
  by (cases x) simp_all

lemma node_output_text:
  "\<forall>y \<in> set (node_lines x). node_text y \<noteq> [] \<Longrightarrow>
   join [CHR 0x0A] (node_output x) = join [CHR 0x0A] (map node_text (node_lines x))"
proof (induction x)
  case (Entry p cn pa nm d sub)
  let ?nl = "[CHR 0x0A]"
  have lines: "\<forall>y \<in> set (block_lines sub). node_text y \<noteq> []"
    using Entry.prems by simp
  have each: "join ?nl (node_output x) = join ?nl (map node_text (node_lines x))"
    if "x \<in> set sub" for x
    using Entry.IH [OF that] lines that by (auto simp: block_lines_def)
  have out_ne: "\<forall>xs \<in> set (map node_output sub). xs \<noteq> []"
  proof
    fix xs assume "xs \<in> set (map node_output sub)"
    then obtain x where "xs = node_output x" by auto
    then show "xs \<noteq> []" by (cases x) simp_all
  qed
  have lin_ne: "\<forall>xs \<in> set (map (map node_text \<circ> node_lines) sub). xs \<noteq> []"
    by (auto simp: node_lines_nonempty)
  have "join ?nl (concat (map node_output sub)) = join ?nl (map (join ?nl) (map node_output sub))"
    using out_ne by (rule join_concat)
  also have "\<dots> = join ?nl (map (join ?nl) (map (map node_text \<circ> node_lines) sub))"
    using each by (simp cong: map_cong)
  also have "\<dots> = join ?nl (concat (map (map node_text \<circ> node_lines) sub))"
    using lin_ne by (rule join_concat [symmetric])
  also have "\<dots> = join ?nl (map node_text (block_lines sub))"
    by (simp add: block_lines_def map_concat)
  finally have sub: "join ?nl (concat (map node_output sub)) =
      join ?nl (map node_text (block_lines sub))" .
  show ?case
  proof (cases "sub = []")
    case True
    then show ?thesis by simp
  next
    case False
    then have ne: "block_lines sub \<noteq> []"
      by (cases sub) (simp_all add: node_lines_nonempty)
    with lines have "join ?nl (map node_text (block_lines sub)) \<noteq> []"
      by (intro join_nonempty) auto
    with sub ne show ?thesis
      by (simp add: join_Cons Let_def del: node_output.simps(1) add: node_output.simps(1) [of p cn pa nm d sub])
  qed
next
  case (LimitReached p cn)
  then show ?case by simp
qed

lemma returned_text_block_text:
  assumes "\<forall>y \<in> set (block_lines b). node_text y \<noteq> []"
  shows "returned_text b = block_text b"
proof -
  let ?nl = "[CHR 0x0A]"
  have out_ne: "\<forall>xs \<in> set (map node_output b). xs \<noteq> []"
  proof
    fix xs assume "xs \<in> set (map node_output b)"
    then obtain x where "xs = node_output x" by auto
    then show "xs \<noteq> []" by (cases x) simp_all
  qed
  have lin_ne: "\<forall>xs \<in> set (map (map node_text \<circ> node_lines) b). xs \<noteq> []"
    by (auto simp: node_lines_nonempty)
  have each: "join ?nl (node_output x) = join ?nl (map node_text (node_lines x))"
    if "x \<in> set b" for x
    using node_output_text [of x] assms that by (auto simp: block_lines_def)
  have "returned_text b = join ?nl (map (join ?nl) (map node_output b))"
    unfolding returned_text_def using out_ne by (rule join_concat)
  also have "\<dots> = join ?nl (map (join ?nl) (map (map node_text \<circ> node_lines) b))"
    using each by (simp cong: map_cong)
  also have "\<dots> = join ?nl (concat (map (map node_text \<circ> node_lines) b))"
    using lin_ne by (rule join_concat [symmetric])
  also have "\<dots> = block_text b"
    by (simp add: block_text_def block_lines_def map_concat)
  finally show ?thesis .
qed

lemma generate_lines_nonempty:
  "(generate fuel w c directory prefix depth s = Some (Inr (block, s')) \<longrightarrow>
      (\<forall>y \<in> set (block_lines block). node_text y \<noteq> [])) \<and>
   (walk fuel w c prefix depth n i entries s = Some (Inr (block, s')) \<longrightarrow>
      (\<forall>y \<in> set (block_lines block). node_text y \<noteq> []))"
proof (rule generate_walk_induct
    [where G = "\<lambda>fuel directory prefix depth s block s'.
                  \<forall>y \<in> set (block_lines block). node_text y \<noteq> []"
       and W = "\<lambda>fuel prefix depth n i entries s block s'.
                  \<forall>y \<in> set (block_lines block). node_text y \<noteq> []"],
    goal_cases)
  case 1
  then show ?case by simp
next
  case 2
  then show ?case by simp
next
  case 3
  then show ?case by simp
next
  case 4
  then show ?case by (simp add: ELBOW_def)
next
  case 5
  then show ?case by (simp add: ELBOW_def TEE_def)
next
  case 6
  then show ?case by (auto simp: ELBOW_def TEE_def)
qed

lemma generate_returned_text:
  "generate fuel w c directory prefix depth s = Some (Inr (block, s')) \<Longrightarrow>
   returned_text block = block_text block"
  using generate_lines_nonempty [of fuel w c directory prefix depth s block s']
  by (auto intro: returned_text_block_text)

subsection \<open>Fuel\<close>

text \<open>
  A result does not depend on the fuel that produced it, and under a depth limit a call
  returns as soon as the fuel exceeds the levels that are left.
\<close>

lemma walk_Cons_eq:
  "\<not> limit_reached c s \<Longrightarrow>
   walk fuel w c prefix depth n i (entry # rest) s =
     (case entry_head w c entry of
        Inl e \<Rightarrow> Some (Inl e)
      | Inr (name, d, b) \<Rightarrow>
          if b then
            (case generate fuel w c entry (prefix @ (if Suc i = n then BLANK else PIPE)) (Suc depth)
                    (count_entry d s) of
               None \<Rightarrow> None
             | Some (Inl e) \<Rightarrow> Some (Inl e)
             | Some (Inr (sub, s2)) \<Rightarrow>
                 map_option
                   (map_sum id (\<lambda>(out, s3).
                      (Entry prefix (if Suc i = n then ELBOW else TEE) entry name d sub # out, s3)))
                   (walk fuel w c prefix depth n (Suc i) rest s2))
          else
            map_option
              (map_sum id (\<lambda>(out, s3).
                 (Entry prefix (if Suc i = n then ELBOW else TEE) entry name d [] # out, s3)))
              (walk fuel w c prefix depth n (Suc i) rest (count_entry d s)))"
proof -
  assume nl: "\<not> limit_reached c s"
  show ?thesis
  proof (cases "entry_head w c entry")
    case (Inl e)
    with nl show ?thesis
      by (simp add: entry_head_def Let_def split: sum.splits)
  next
    case (Inr h)
    obtain name d b where h: "h = (name, d, b)" by (cases h)
    from Inr h have f: "format_entry w c entry = Inr name" and dd: "is_dir w entry = Inr d"
      and bb: "descends w c entry = Inr b"
      by (auto simp: entry_head_def split: sum.splits)
    show ?thesis
    proof (cases b)
      case True
      with nl Inr h f dd bb show ?thesis
        by (simp add: Let_def split: option.splits sum.splits prod.splits)
    next
      case False
      with nl Inr h f dd bb show ?thesis
        by (simp add: Let_def split: option.splits sum.splits prod.splits)
    qed
  qed
qed

lemma walk_fuel_mono:
  assumes gen: "\<And>directory prefix depth s r.
      generate fuel w c directory prefix depth s = Some r \<Longrightarrow>
      generate (Suc fuel) w c directory prefix depth s = Some r"
  shows "walk fuel w c prefix depth n i entries s = Some r \<Longrightarrow>
         walk (Suc fuel) w c prefix depth n i entries s = Some r"
proof (induction entries arbitrary: i s r)
  case Nil
  then show ?case by simp
next
  case (Cons entry rest)
  show ?case
  proof (cases "limit_reached c s")
    case True
    with Cons.prems show ?thesis by simp
  next
    case False
    let ?p = "prefix @ (if Suc i = n then BLANK else PIPE)"
    note prem = Cons.prems [unfolded walk_Cons_eq [OF False]]
    show ?thesis
    proof (cases "entry_head w c entry")
      case (Inl e)
      with prem show ?thesis
        unfolding walk_Cons_eq [OF False] by simp
    next
      case (Inr h)
      obtain name d b where h: "h = (name, d, b)" by (cases h)
      let ?s1 = "count_entry d s"
      show ?thesis
      proof (cases b)
        case True
        with prem Inr h obtain g where g: "generate fuel w c entry ?p (Suc depth) ?s1 = Some g"
          by (auto split: option.splits)
        from gen [OF g] have g': "generate (Suc fuel) w c entry ?p (Suc depth) ?s1 = Some g" .
        show ?thesis
        proof (cases g)
          case e: (Inl e)
          with prem True g Inr h have "r = Inl e" by simp
          with True g' e Inr h show ?thesis
            unfolding walk_Cons_eq [OF False] by (simp del: generate.simps walk.simps)
        next
          case bs: (Inr bs)
          obtain sub s2 where bs2: "bs = (sub, s2)" by (cases bs)
          with prem True g bs Inr h obtain r' where
            r': "walk fuel w c prefix depth n (Suc i) rest s2 = Some r'"
            by (auto split: option.splits)
          from Cons.IH [OF r']
          have "walk (Suc fuel) w c prefix depth n (Suc i) rest s2 = Some r'" .
          with prem True g g' bs bs2 r' Inr h show ?thesis
            unfolding walk_Cons_eq [OF False] by (simp del: generate.simps walk.simps)
        qed
      next
        case no: False
        with prem Inr h obtain r' where
          r': "walk fuel w c prefix depth n (Suc i) rest ?s1 = Some r'"
          by (auto split: option.splits)
        from Cons.IH [OF r']
        have "walk (Suc fuel) w c prefix depth n (Suc i) rest ?s1 = Some r'" .
        with prem no r' Inr h show ?thesis
          unfolding walk_Cons_eq [OF False] by (auto simp del: generate.simps walk.simps)
      qed
    qed
  qed
qed

lemma generate_fuel_mono:
  "generate fuel w c directory prefix depth s = Some r \<Longrightarrow>
   generate (Suc fuel) w c directory prefix depth s = Some r"
proof (induction fuel arbitrary: directory prefix depth s r)
  case 0
  then show ?case by simp
next
  case (Suc fuel)
  have wk: "walk fuel w c prefix depth n i entries s = Some r \<Longrightarrow>
      walk (Suc fuel) w c prefix depth n i entries s = Some r" for prefix depth n i entries s r
    using walk_fuel_mono [of fuel w c] Suc.IH by blast
  show ?case
  proof (cases "depth_reached c depth \<or> limit_reached c s \<or> is_dir w directory \<noteq> Inr True")
    case True
    with Suc.prems show ?thesis by (auto split: if_splits sum.splits bool.splits)
  next
    case False
    show ?thesis
    proof (cases "get_entries w c directory")
      case (Inl e)
      with Suc.prems False show ?thesis by simp
    next
      case (Inr entries)
      with Suc.prems False
      have "walk fuel w c prefix depth (length entries) 0 entries s = Some r"
        by simp
      from wk [OF this] Inr False show ?thesis
        by (simp del: walk.simps)
    qed
  qed
qed

lemma generate_more_fuel:
  "generate fuel w c directory prefix depth s = Some r \<Longrightarrow>
   generate (fuel + extra) w c directory prefix depth s = Some r"
proof (induction extra)
  case 0
  then show ?case by simp
next
  case (Suc extra)
  then have "generate (fuel + extra) w c directory prefix depth s = Some r"
    by blast
  then have "generate (Suc (fuel + extra)) w c directory prefix depth s = Some r"
    by (rule generate_fuel_mono)
  then show ?case by (simp del: generate.simps)
qed

lemma walk_returns:
  assumes gen: "\<And>directory prefix s.
      generate fuel w c directory prefix (Suc depth) s \<noteq> None"
  shows "walk fuel w c prefix depth n i entries s \<noteq> None"
proof (induction entries arbitrary: i s)
  case Nil
  then show ?case by simp
next
  case (Cons entry rest)
  show ?case
  proof (cases "limit_reached c s")
    case True
    then show ?thesis by simp
  next
    case False
    let ?p = "prefix @ (if Suc i = n then BLANK else PIPE)"
    show ?thesis
    proof (cases "entry_head w c entry")
      case (Inl e)
      then show ?thesis unfolding walk_Cons_eq [OF False] by simp
    next
      case (Inr h)
      obtain name d b where h: "h = (name, d, b)" by (cases h)
      let ?s1 = "count_entry d s"
      from gen obtain g where g: "generate fuel w c entry ?p (Suc depth) ?s1 = Some g"
        by blast
      show ?thesis
      proof (cases g)
        case e: (Inl e)
        with g Inr h Cons.IH [of "Suc i" ?s1] show ?thesis
          unfolding walk_Cons_eq [OF False] by (auto split: option.splits)
      next
        case bs: (Inr bs)
        obtain sub s2 where "bs = (sub, s2)" by (cases bs)
        with bs g Inr h Cons.IH [of "Suc i" ?s1] Cons.IH [of "Suc i" s2] show ?thesis
          unfolding walk_Cons_eq [OF False] by (auto split: option.splits)
      qed
    qed
  qed
qed

lemma generate_returns_within_depth:
  assumes k: "max_depth c = Some k"
  shows "nat (k - int depth) < fuel \<Longrightarrow> generate fuel w c directory prefix depth s \<noteq> None"
proof (induction fuel arbitrary: directory prefix depth s)
  case 0
  then show ?case by simp
next
  case (Suc fuel)
  show ?case
  proof (cases "depth_reached c depth")
    case True
    then show ?thesis by simp
  next
    case False
    with k have "int depth < k" by (simp add: depth_reached_def)
    with Suc.prems have "nat (k - int (Suc depth)) < fuel" by simp
    then have "generate fuel w c directory' prefix' (Suc depth) s' \<noteq> None"
      for directory' prefix' s'
      by (rule Suc.IH)
    then have "walk fuel w c prefix depth n i entries s \<noteq> None" for n i entries
      by (rule walk_returns)
    then show ?thesis
      by (auto simp del: walk.simps split: sum.splits bool.splits)
  qed
qed

subsection \<open>Sorting and grouping\<close>

lemma keys_of_Inr_iff:
  "keys_of key xs = Inr ks \<longleftrightarrow> list_all2 (\<lambda>x k. key x = Inr k) xs ks"
proof (induction xs arbitrary: ks)
  case Nil
  then show ?case by auto
next
  case (Cons x xs)
  show ?case
  proof (cases "key x")
    case (Inl e)
    then show ?thesis by (auto simp: list_all2_Cons1)
  next
    case (Inr k)
    then show ?thesis using Cons.IH
      by (cases "keys_of key xs") (auto simp: list_all2_Cons1)
  qed
qed

lemma keys_of_pairs:
  "\<forall>(k, x) \<in> set zs. key x = Inr k \<Longrightarrow> keys_of key (map snd zs) = Inr (map fst zs)"
  by (induction zs) auto

lemma keys_of_zip:
  assumes "keys_of key xs = Inr ks"
  shows "length ks = length xs" and "\<forall>(k, x) \<in> set (zip ks xs). key x = Inr k"
proof -
  from assms have a: "list_all2 (\<lambda>x k. key x = Inr k) xs ks"
    by (simp add: keys_of_Inr_iff)
  then show "length ks = length xs"
    by (simp add: list_all2_lengthD)
  from a have "list_all2 (\<lambda>k x. key x = Inr k) ks xs"
    by (simp add: list_all2_conv_all_nth)
  then show "\<forall>(k, x) \<in> set (zip ks xs). key x = Inr k"
    by (simp add: list_all2_iff)
qed

lemma keys_of_map:
  "keys_of key xs = Inr ks \<Longrightarrow> \<forall>x \<in> set xs. \<forall>k. key x = Inr k \<longrightarrow> k = f x \<Longrightarrow> ks = map f xs"
proof (induction xs arbitrary: ks)
  case Nil
  then show ?case by simp
next
  case (Cons x xs)
  then show ?case by (auto split: sum.splits)
qed

lemma py_sorted_Inr:
  assumes "py_sorted key reverse xs = Inr ys"
  shows "mset ys = mset xs \<and> ordered_by key reverse ys"
proof -
  from assms obtain ks where ks: "keys_of key xs = Inr ks"
    by (auto simp: py_sorted_def split: sum.splits)
  let ?zs = "zip ks xs"
  let ?S = "if reverse then rev (sort_key fst (rev ?zs)) else sort_key fst ?zs"
  from assms ks have ys: "ys = map snd ?S"
    by (simp add: py_sorted_def)
  from keys_of_zip [OF ks] have len: "length ks = length xs"
    and pairs: "\<forall>(k, x) \<in> set ?zs. key x = Inr k"
    by simp_all
  have "mset ?S = mset ?zs"
    by simp
  then have "mset (map snd ?S) = mset (map snd ?zs)"
    by (metis mset_map)
  with len ys have m: "mset ys = mset xs"
    by simp
  have "set ?S = set ?zs"
    by simp
  with pairs have "\<forall>(k, x) \<in> set ?S. key x = Inr k"
    by simp
  then have keys: "keys_of key ys = Inr (map fst ?S)"
    unfolding ys by (rule keys_of_pairs)
  have "if reverse then sorted (rev (map fst ?S)) else sorted (map fst ?S)"
    by (simp add: rev_map [symmetric])
  with keys have "ordered_by key reverse ys"
    by (simp add: ordered_by_def in_order_def)
  with m show ?thesis by simp
qed

lemma ordered_by_in_order:
  assumes "ordered_by key reverse ys"
    and "\<forall>y \<in> set ys. \<forall>k. key y = Inr k \<longrightarrow> k = f y"
  shows "in_order reverse (map f ys)"
proof -
  from assms(1) obtain ks where ks: "keys_of key ys = Inr ks" and o: "in_order reverse ks"
    by (auto simp: ordered_by_def split: sum.splits)
  from keys_of_map [OF ks assms(2)] o show ?thesis by simp
qed

text \<open>
  The keys of the source are the keys of the specification: the name and the time for
  every path whose key can be read, the size for a directory and for a regular file.
\<close>

lemma key_name_spec: "key_name w p = Inr k \<Longrightarrow> k = spec_name w p"
  by (auto simp: key_name_def spec_name_def)

lemma key_modified_spec: "key_modified w p = Inr k \<Longrightarrow> k = spec_modified w p"
  by (auto simp: key_modified_def spec_modified_def split: sum.splits)

lemma key_size_spec:
  assumes "directory_at w p \<or> regular_file_at w p" and "key_size w p = Inr k"
  shows "k = spec_size w p"
proof (cases "directory_at w p")
  case True
  then have "\<not> regular_file_at w p" by (rule directory_not_file)
  then have "is_file w p \<noteq> Inr True" by (simp add: is_file_True)
  with assms(2) True show ?thesis
    by (auto simp: key_size_def spec_size_def split: sum.splits bool.splits)
next
  case False
  with assms(1) have "regular_file_at w p" by simp
  then have "is_file w p = Inr True" by (simp add: is_file_True)
  with assms(2) False show ?thesis
    by (auto simp: key_size_def spec_size_def split: sum.splits)
qed

lemma sort_entries_perm:
  assumes "sort_entries w c xs = Inr ys"
  shows "mset ys = mset xs"
  using assms py_sorted_Inr [of "key_size w" "reverse_sort c" xs ys]
    py_sorted_Inr [of "key_modified w" "reverse_sort c" xs ys]
    py_sorted_Inr [of "key_name w" "reverse_sort c" xs ys]
  by (auto simp: sort_entries_def split: if_splits)

lemma sort_entries_Inr:
  assumes "sort_entries w c xs = Inr ys"
    and typed: "\<forall>p \<in> set xs. directory_at w p \<or> regular_file_at w p"
  shows "mset ys = mset xs \<and> spec_ordered w c ys"
proof -
  from sort_entries_perm [OF assms(1)] have m: "mset ys = mset xs" .
  then have "set ys = set xs" by (metis set_mset_mset)
  with typed have ty: "\<forall>p \<in> set ys. directory_at w p \<or> regular_file_at w p"
    by simp
  have "spec_ordered w c ys"
  proof (cases "sort_by c = ''size''")
    case True
    with assms(1) have "ordered_by (key_size w) (reverse_sort c) ys"
      using py_sorted_Inr [of "key_size w" "reverse_sort c" xs ys] by (simp add: sort_entries_def)
    then have "in_order (reverse_sort c) (map (spec_size w) ys)"
      using ty key_size_spec by (intro ordered_by_in_order [of "key_size w"]) auto
    with True show ?thesis by (simp add: spec_ordered_def)
  next
    case False
    show ?thesis
    proof (cases "sort_by c = ''modified''")
      case True
      with False assms(1) have "ordered_by (key_modified w) (reverse_sort c) ys"
        using py_sorted_Inr [of "key_modified w" "reverse_sort c" xs ys]
        by (simp add: sort_entries_def)
      then have "in_order (reverse_sort c) (map (spec_modified w) ys)"
        using key_modified_spec by (intro ordered_by_in_order [of "key_modified w"]) auto
      with True False show ?thesis by (simp add: spec_ordered_def)
    next
      case no: False
      with False assms(1) have "ordered_by (key_name w) (reverse_sort c) ys"
        using py_sorted_Inr [of "key_name w" "reverse_sort c" xs ys]
        by (simp add: sort_entries_def)
      then have "in_order (reverse_sort c) (map (spec_name w) ys)"
        using key_name_spec by (intro ordered_by_in_order [of "key_name w"]) auto
      with no False show ?thesis by (simp add: spec_ordered_def)
    qed
  qed
  with m show ?thesis by simp
qed

lemma filter_py_is_dir: "filter_py (is_dir w) xs = Inr ys \<Longrightarrow> ys = filter (directory_at w) xs"
  using filter_py_Inr [of "is_dir w" xs ys] by (simp add: is_dir_True)

lemma filter_py_is_file: "filter_py (is_file w) xs = Inr ys \<Longrightarrow> ys = filter (regular_file_at w) xs"
  using filter_py_Inr [of "is_file w" xs ys] by (simp add: is_file_True)

lemma arrange_grouped:
  assumes "\<not> dirs_only c" "\<not> files_only c" "arrange w c vis = Inr entries"
  shows "\<exists>dirs files. entries = dirs @ files \<and>
      mset dirs = mset (filter (directory_at w) vis) \<and>
      mset files = mset (filter (regular_file_at w) vis) \<and>
      spec_ordered w c dirs \<and> spec_ordered w c files"
proof -
  from assms obtain entries2 ds fs dirs files where
    s2: "sort_entries w c vis = Inr entries2"
    and ds: "filter_py (is_dir w) entries2 = Inr ds"
    and fs: "filter_py (is_file w) entries2 = Inr fs"
    and d: "sort_entries w c ds = Inr dirs"
    and f: "sort_entries w c fs = Inr files"
    and e: "entries = dirs @ files"
    by (auto simp: arrange_def split: sum.splits)
  from sort_entries_perm [OF s2] have m2: "mset entries2 = mset vis" .
  from filter_py_is_dir [OF ds] have ds': "ds = filter (directory_at w) entries2" .
  from filter_py_is_file [OF fs] have fs': "fs = filter (regular_file_at w) entries2" .
  have "\<forall>p \<in> set ds. directory_at w p \<or> regular_file_at w p"
    using ds' by simp
  from sort_entries_Inr [OF d this] ds' m2
  have "mset dirs = mset (filter (directory_at w) vis)" and "spec_ordered w c dirs"
    by simp_all
  moreover have "\<forall>p \<in> set fs. directory_at w p \<or> regular_file_at w p"
    using fs' by simp
  from sort_entries_Inr [OF f this] fs' m2
  have "mset files = mset (filter (regular_file_at w) vis)" and "spec_ordered w c files"
    by simp_all
  ultimately show ?thesis using e by blast
qed

lemma groups_are_filters:
  assumes "entries = dirs @ files"
    and "mset dirs = mset (filter (directory_at w) vis)"
    and "mset files = mset (filter (regular_file_at w) vis)"
  shows "filter (directory_at w) entries = dirs \<and> filter (regular_file_at w) entries = files"
proof -
  from assms(2) have "set dirs = set (filter (directory_at w) vis)"
    by (metis set_mset_mset)
  then have d: "\<forall>p \<in> set dirs. directory_at w p" by simp
  from assms(3) have "set files = set (filter (regular_file_at w) vis)"
    by (metis set_mset_mset)
  then have f: "\<forall>p \<in> set files. regular_file_at w p" by simp
  from d have dn: "\<forall>p \<in> set dirs. \<not> regular_file_at w p"
    using directory_not_file by blast
  from f have fn: "\<forall>p \<in> set files. \<not> directory_at w p"
    using directory_not_file by blast
  from d fn have "filter (directory_at w) (dirs @ files) = dirs"
    by (simp add: filter_id_conv filter_empty_conv)
  moreover from f dn have "filter (regular_file_at w) (dirs @ files) = files"
    by (simp add: filter_id_conv filter_empty_conv)
  ultimately show ?thesis using assms(1) by simp
qed

lemma arrange_typed:
  assumes "arrange w c vis = Inr entries"
  shows "set entries \<subseteq> {p \<in> set vis. directory_at w p \<or> regular_file_at w p}"
proof (cases "\<not> dirs_only c \<and> \<not> files_only c")
  case True
  with arrange_grouped [OF _ _ assms] obtain dirs files where
    "entries = dirs @ files" "mset dirs = mset (filter (directory_at w) vis)"
    "mset files = mset (filter (regular_file_at w) vis)"
    by blast
  then have "set entries = set (filter (directory_at w) vis) \<union> set (filter (regular_file_at w) vis)"
    by (metis set_append set_mset_mset)
  then show ?thesis by auto
next
  case False
  with assms obtain entries1 where
    s: "sort_entries w c entries1 = Inr entries"
    and e1: "filter_py (is_dir w) vis = Inr entries1 \<or> filter_py (is_file w) vis = Inr entries1"
    by (auto simp: arrange_def split: sum.splits if_splits)
  from sort_entries_perm [OF s] have "set entries = set entries1"
    by (metis set_mset_mset)
  with e1 filter_py_is_dir [of w vis entries1] filter_py_is_file [of w vis entries1]
  show ?thesis by auto
qed

text \<open>
  When the listing returns: no type test of a child raises, the key for \<open>modified\<close> is
  the one key that can raise, and it does so only when neither type filter has removed
  the entries whose \<open>stat\<close> fails.
\<close>

lemma keys_of_total:
  "\<forall>x \<in> set xs. \<exists>k. key x = Inr k \<Longrightarrow> \<exists>ks. keys_of key xs = Inr ks"
  by (induction xs) auto

lemma py_sorted_total:
  "\<forall>x \<in> set xs. \<exists>k. key x = Inr k \<Longrightarrow> \<exists>ys. py_sorted key reverse xs = Inr ys"
  using keys_of_total [of xs key] by (auto simp: py_sorted_def)

lemma type_tests_total:
  assumes "stat_answers w p"
  shows "\<exists>b. is_dir w p = Inr b" and "\<exists>b. is_file w p = Inr b"
  using assms
  by (auto simp: stat_answers_def is_dir_def is_file_def type_test_def split: sum.splits)

lemma stat_answers_typed: "directory_at w p \<or> regular_file_at w p \<Longrightarrow> \<exists>st. os_stat w p = Inr st"
  by (auto simp: directory_at_def regular_file_at_def split: sum.splits)

lemma key_size_total: "stat_answers w p \<Longrightarrow> \<exists>k. key_size w p = Inr k"
  by (auto simp: key_size_def stat_answers_def is_file_def type_test_def split: sum.splits bool.splits)

lemma key_modified_total: "os_stat w p = Inr st \<Longrightarrow> \<exists>k. key_modified w p = Inr k"
  by (simp add: key_modified_def)

lemma sort_entries_total:
  assumes "\<forall>p \<in> set xs. stat_answers w p"
    and "sort_by c = ''modified'' \<longrightarrow> (\<forall>p \<in> set xs. \<exists>st. os_stat w p = Inr st)"
  shows "\<exists>ys. sort_entries w c xs = Inr ys"
proof (cases "sort_by c = ''size''")
  case True
  from assms(1) have "\<forall>p \<in> set xs. \<exists>k. key_size w p = Inr k"
    using key_size_total by blast
  from py_sorted_total [OF this] True show ?thesis
    by (simp add: sort_entries_def)
next
  case False
  show ?thesis
  proof (cases "sort_by c = ''modified''")
    case True
    with assms(2) have "\<forall>p \<in> set xs. \<exists>k. key_modified w p = Inr k"
      using key_modified_total by blast
    from py_sorted_total [OF this] True show ?thesis
      by (simp add: sort_entries_def)
  next
    case no: False
    with False show ?thesis
      using py_sorted_total [of xs "key_name w"] by (simp add: sort_entries_def key_name_def)
  qed
qed

lemma arrange_returns:
  assumes ans: "\<forall>p \<in> set vis. stat_answers w p"
    and srt: "sort_by c \<noteq> ''modified'' \<or> dirs_only c \<or> files_only c \<or>
      (\<forall>p \<in> set vis. \<exists>st. os_stat w p = Inr st)"
  shows "\<exists>entries. arrange w c vis = Inr entries"
proof -
  let ?f1 = "if dirs_only c then filter_py (is_dir w) vis
             else if files_only c then filter_py (is_file w) vis else Inr vis"
  from ans have "\<exists>ys. filter_py (is_dir w) vis = Inr ys" "\<exists>ys. filter_py (is_file w) vis = Inr ys"
    using type_tests_total by (auto intro!: filter_py_total)
  then have "\<exists>e1. ?f1 = Inr e1" by simp
  then obtain e1 where e1: "?f1 = Inr e1" by blast
  then have e1': "e1 = (if dirs_only c then filter (directory_at w) vis
                        else if files_only c then filter (regular_file_at w) vis else vis)"
    using filter_py_is_dir [of w vis e1] filter_py_is_file [of w vis e1]
    by (auto split: if_splits)
  then have sub1: "set e1 \<subseteq> set vis" by auto
  have "sort_by c = ''modified'' \<longrightarrow> (\<forall>p \<in> set e1. \<exists>st. os_stat w p = Inr st)"
    using srt e1' stat_answers_typed by (auto split: if_splits)
  moreover have "\<forall>p \<in> set e1. stat_answers w p"
    using ans sub1 by auto
  ultimately obtain e2 where e2: "sort_entries w c e1 = Inr e2"
    using sort_entries_total by blast
  show ?thesis
  proof (cases "\<not> files_only c \<and> \<not> dirs_only c")
    case False
    with e1 e2 show ?thesis by (auto simp: arrange_def)
  next
    case True
    from sort_entries_perm [OF e2] have "set e2 = set e1" by (metis set_mset_mset)
    with sub1 ans have ans2: "\<forall>p \<in> set e2. stat_answers w p" by auto
    then obtain ds fs where ds: "filter_py (is_dir w) e2 = Inr ds"
      and fs: "filter_py (is_file w) e2 = Inr fs"
      using type_tests_total filter_py_total [of e2 "is_dir w"] filter_py_total [of e2 "is_file w"]
      by blast
    from filter_py_is_dir [OF ds] have ds': "ds = filter (directory_at w) e2" .
    from filter_py_is_file [OF fs] have fs': "fs = filter (regular_file_at w) e2" .
    have "\<exists>ys. sort_entries w c ds = Inr ys"
      using ds' ans2 stat_answers_typed by (intro sort_entries_total) auto
    moreover have "\<exists>ys. sort_entries w c fs = Inr ys"
      using fs' ans2 stat_answers_typed by (intro sort_entries_total) auto
    ultimately show ?thesis using True e1 e2 ds fs
      by (auto simp: arrange_def)
  qed
qed

lemma get_entries_typed:
  assumes "get_entries w c directory = Inr entries"
  shows "\<forall>p \<in> set entries. directory_at w p \<or> regular_file_at w p"
proof (cases "list_visible w c directory")
  case (Inl e)
  with assms show ?thesis
    by (auto simp: get_entries_def split: if_splits)
next
  case (Inr vis)
  with assms have "arrange w c vis = Inr entries"
    by (simp add: get_entries_def)
  from arrange_typed [OF this] show ?thesis by auto
qed

lemma generate_typed:
  "(generate fuel w c directory prefix depth s = Some (Inr (block, s')) \<longrightarrow>
      (\<forall>x \<in> set (block_lines block). line_typed w x)) \<and>
   (walk fuel w c prefix depth n i entries s = Some (Inr (block, s')) \<longrightarrow>
      (\<forall>p \<in> set entries. directory_at w p \<or> regular_file_at w p) \<longrightarrow>
      (\<forall>x \<in> set (block_lines block). line_typed w x))"
proof (rule generate_walk_induct
    [where G = "\<lambda>fuel directory prefix depth s block s'.
                  \<forall>x \<in> set (block_lines block). line_typed w x"
       and W = "\<lambda>fuel prefix depth n i entries s block s'.
                  (\<forall>p \<in> set entries. directory_at w p \<or> regular_file_at w p) \<longrightarrow>
                  (\<forall>x \<in> set (block_lines block). line_typed w x)"],
    goal_cases)
  case 1
  then show ?case by simp
next
  case 2
  then show ?case using get_entries_typed by blast
next
  case 3
  then show ?case by simp
next
  case 4
  then show ?case by (simp add: line_typed_def)
next
  case (5 fuel prefix depth n i entry rest s name d out s')
  from is_dir_Inr [OF 5(3)] have "d = directory_at w entry" .
  with 5 show ?case by (auto simp: line_typed_def)
next
  case (6 fuel prefix depth n i entry rest s name sub s2 out s')
  from is_dir_Inr [OF 6(3)] have "directory_at w entry" by simp
  with 6 show ?case by (auto simp: line_typed_def)
qed

subsection \<open>Formatted names\<close>

lemma format_entry_dir:
  assumes "directory_at w p"
  shows "\<exists>t. format_entry w c p = Inr (t @ ''/'')"
proof -
  let ?name0 = "if full_path c then path_str p else path_name p"
  from assms obtain st where st: "os_stat w p = Inr st" and m: "S_IFMT (st_mode st) = 4"
    by (auto simp: directory_at_def split: sum.splits)
  then have d: "is_dir w p = Inr True" and f: "is_file w p = Inr False"
    by (simp_all add: is_dir_def is_file_def type_test_def)
  show ?thesis
  proof (cases "show_permissions c")
    case False
    with d f have "format_entry w c p = Inr (?name0 @ ''/'')"
      by (simp add: format_entry_def)
    then show ?thesis by blast
  next
    case True
    with d f st have
      "format_entry w c p = Inr ((''['' @ last3 (oct (st_mode st)) @ ''] '' @ ?name0) @ ''/'')"
      by (simp add: format_entry_def)
    then show ?thesis by blast
  qed
qed

lemma format_entry_dir_slash:
  "directory_at w p \<Longrightarrow> format_entry w c p = Inr name \<Longrightarrow> ends_with_slash name"
  using format_entry_dir [of w p c] by (auto simp: ends_with_slash_def)

lemma generate_unfollowed:
  assumes nf: "\<not> follow_links c"
  shows "(generate fuel w c directory prefix depth s = Some (Inr (block, s')) \<longrightarrow>
      (\<forall>x \<in> set (block_lines block). unfollowed_link w x)) \<and>
   (walk fuel w c prefix depth n i entries s = Some (Inr (block, s')) \<longrightarrow>
      (\<forall>x \<in> set (block_lines block). unfollowed_link w x))"
proof (rule generate_walk_induct
    [where G = "\<lambda>fuel directory prefix depth s block s'.
                  \<forall>x \<in> set (block_lines block). unfollowed_link w x"
       and W = "\<lambda>fuel prefix depth n i entries s block s'.
                  \<forall>x \<in> set (block_lines block). unfollowed_link w x"],
    goal_cases)
  case 1
  then show ?case by simp
next
  case 2
  then show ?case by simp
next
  case 3
  then show ?case by simp
next
  case 4
  then show ?case by (simp add: unfollowed_link_def)
next
  case (5 fuel prefix depth n i entry rest s name d out s')
  from is_dir_Inr [OF 5(3)] have "d = directory_at w entry" .
  with 5 show ?case using format_entry_dir_slash [of w entry c name]
    by (auto simp: unfollowed_link_def)
next
  case (6 fuel prefix depth n i entry rest s name sub s2 out s')
  from 6(4) nf have "is_symlink w entry = Inr False"
    by (simp add: descends_True)
  then have "\<not> symlink_at w entry"
    using is_symlink_True [of w entry] by simp
  with 6 show ?case
    by (auto simp: unfollowed_link_def)
qed

subsection \<open>The gitignore loop\<close>

lemma gitignore_loop_under_cwd:
  assumes "relative_to p (cwd w) = Inr rel"
  shows "gitignore_loop w p pats =
    Inr (\<exists>pat \<in> set pats. fnmatch w (path_name p) (rstrip_slash pat) \<or>
           CHR ''/'' \<in> set (rstrip_slash pat) \<and> fnmatch w (rel_str rel) (rstrip_slash pat))"
  using assms by (induction pats) (auto simp: Let_def)

lemma gitignore_loop_no_slash:
  assumes "\<forall>pat \<in> set pats. CHR ''/'' \<notin> set (rstrip_slash pat)"
  shows "gitignore_loop w p pats =
    Inr (\<exists>pat \<in> set pats. fnmatch w (path_name p) (rstrip_slash pat))"
  using assms by (induction pats) (auto simp: Let_def)

lemma gitignore_loop_world:
  "cwd w' = cwd w \<Longrightarrow> fnmatch w' = fnmatch w \<Longrightarrow> gitignore_loop w' p pats = gitignore_loop w p pats"
  by (induction pats) (auto simp: Let_def split: sum.splits)


subsection \<open>Evaluating the sample world\<close>

lemmas demo_defs = demo_world_def table_world_def stat_of_def default_config_def fresh_def
  is_dir_def is_file_def is_symlink_def type_test_def ignore_error_def S_IFMT_def
  should_ignore_def path_name_def startswith_dot_def rstrip_slash_def relative_to_def rel_str_def
  iterdir_child_def list_visible_def get_entries_def arrange_def sort_entries_def py_sorted_def
  key_name_def key_size_def key_modified_def ascii_lower_def
  format_entry_def depth_reached_def limit_reached_def count_entry_def descends_def

lemmas rule_defs = rule_hidden_def rule_custom_def rule_gitignore_name_def
  rule_gitignore_path_def three_rules_def

lemmas fact_defs = directory_at_def regular_file_at_def symlink_at_def
  spec_ordered_def in_order_def spec_name_def spec_size_def spec_modified_def

lemma demo_is_dir:
  "is_dir demo_world [''w''] = Inr True"
  "is_dir demo_world [''w'', ''b.txt''] = Inr False"
  "is_dir demo_world [''w'', ''sub''] = Inr True"
  "is_dir demo_world [''w'', ''sub'', ''c.txt''] = Inr False"
  "is_dir demo_world [''w'', ''a.txt''] = Inr False"
  "is_dir demo_world [''w'', ''gone''] = Inr False"
  "is_dir demo_world [''w'', ''link''] = Inr True"
  "is_dir demo_world [''w'', ''link'', ''c.txt''] = Inr False"
  "is_dir demo_world [''w'', ''fifo''] = Inr False"
  "is_dir demo_world [''w'', ''locked''] = Inr True"
  "is_dir demo_world [''io''] = Inr True"
  "is_dir demo_world [''srv''] = Inr True"
  "is_dir demo_world [''dep''] = Inr True"
  "is_dir demo_world [''dep'', ''vault''] = Inl PermissionError"
  by (simp_all add: demo_defs)

lemma demo_is_symlink:
  "is_symlink demo_world [''w'', ''sub''] = Inr False"
  "is_symlink demo_world [''w'', ''link''] = Inr True"
  "is_symlink demo_world [''w'', ''locked''] = Inr False"
  by (simp_all add: demo_defs)

lemma demo_config:
  "max_depth default_config = None" "max_files default_config = None"
  "\<not> follow_links default_config" "\<not> dirs_only default_config" "\<not> files_only default_config"
  by (simp_all add: default_config_def)

lemmas run_defs = descends_def limit_reached_def depth_reached_def count_entry_def fresh_def

section \<open>The claims\<close>

subsection \<open>C1: the file limit\<close>

text \<open>
  Claim C1. With \<open>max_files = m\<close>, a run of \<open>generate\<close> that starts with
  \<open>file_count = 0\<close> appends at most \<open>m\<close> file lines over the whole walk, the counter
  being threaded through every nested call. In every sibling list of the output there is
  at most one limit marker; it has the elbow connector and is the last node of its list,
  so nothing of that directory follows it.
\<close>

theorem file_limit_respected:
  assumes "max_files c = Some m"
    and "file_count s = 0"
    and "generate fuel w c directory prefix depth s = Some (Inr (block, s'))"
  shows "length (filter is_file_line (block_lines block)) \<le> nat m \<and>
         (\<forall>b \<in> set (blocks block). limit_closes b)"
proof
  from generate_file_bound [OF assms(1), of fuel w directory prefix depth s block s'] assms(2,3)
  have "int (file_count s') \<le> max m 0" by simp
  moreover from generate_counts [of fuel w c directory prefix depth s block s'] assms(2,3)
  have "file_count s' = length (filter is_file_line (block_lines block))" by simp
  ultimately show "length (filter is_file_line (block_lines block)) \<le> nat m" by simp
next
  from generate_limit_last [of fuel w c directory prefix depth s block s'] assms(3)
  show "\<forall>b \<in> set (blocks block). limit_closes b"
    using limit_last_closes by blast
qed


theorem file_limit_respected_witness:
  "generate (Suc (Suc 0)) demo_world (default_config\<lparr>max_files := Some 1\<rparr>) [''w''] [] 0 fresh
     = Some (Inr ([Entry [] TEE [''w'', ''link''] ''link/'' True [],
                   Entry [] TEE [''w'', ''locked''] ''locked/'' True [],
                   Entry [] TEE [''w'', ''sub''] ''sub/'' True
                     [Entry PIPE ELBOW [''w'', ''sub'', ''c.txt''] ''c.txt'' False []],
                   LimitReached [] ELBOW],
                  \<lparr>file_count = 1, dir_count = 3\<rparr>)) \<and>
   length (filter is_file_line (block_lines
     [Entry [] TEE [''w'', ''link''] ''link/'' True [],
      Entry [] TEE [''w'', ''locked''] ''locked/'' True [],
      Entry [] TEE [''w'', ''sub''] ''sub/'' True
        [Entry PIPE ELBOW [''w'', ''sub'', ''c.txt''] ''c.txt'' False []],
      LimitReached [] ELBOW])) \<le> 1 \<and>
   list_all limit_closes (blocks
     [Entry [] TEE [''w'', ''link''] ''link/'' True [],
      Entry [] TEE [''w'', ''locked''] ''locked/'' True [],
      Entry [] TEE [''w'', ''sub''] ''sub/'' True
        [Entry PIPE ELBOW [''w'', ''sub'', ''c.txt''] ''c.txt'' False []],
      LimitReached [] ELBOW])"
proof -
  let ?c = "default_config\<lparr>max_files := Some 1\<rparr>"
  let ?b = "[Entry [] TEE [''w'', ''link''] ''link/'' True [],
      Entry [] TEE [''w'', ''locked''] ''locked/'' True [],
      Entry [] TEE [''w'', ''sub''] ''sub/'' True
        [Entry PIPE ELBOW [''w'', ''sub'', ''c.txt''] ''c.txt'' False []],
      LimitReached [] ELBOW]"
  have m: "max_files ?c = Some 1"
    by simp
  have z: "file_count fresh = 0"
    by (simp add: fresh_def)
  have entries: "get_entries demo_world ?c [''w''] =
      Inr [[''w'', ''link''], [''w'', ''locked''], [''w'', ''sub''], [''w'', ''a.txt''], [''w'', ''b.txt'']]"
    "get_entries demo_world ?c [''w'', ''sub''] = Inr [[''w'', ''sub'', ''c.txt'']]"
    "get_entries demo_world ?c [''w'', ''locked''] = Inr []"
    by (simp_all add: demo_defs)
  have names: "format_entry demo_world ?c [''w'', ''link''] = Inr ''link/''"
    "format_entry demo_world ?c [''w'', ''locked''] = Inr ''locked/''"
    "format_entry demo_world ?c [''w'', ''sub''] = Inr ''sub/''"
    "format_entry demo_world ?c [''w'', ''sub'', ''c.txt''] = Inr ''c.txt''"
    by (simp_all add: demo_defs)
  have run: "generate (Suc (Suc 0)) demo_world ?c [''w''] [] 0 fresh
      = Some (Inr (?b, \<lparr>file_count = 1, dir_count = 3\<rparr>))"
    by (simp add: entries names demo_is_dir demo_is_symlink demo_config run_defs)
  from file_limit_respected [OF m z run] run show ?thesis
    by (simp add: list_all_iff)
qed

subsection \<open>C2: connectors and continuation prefixes\<close>

text \<open>
  Claim C2. Let a call of \<open>generate\<close> return a block that is not empty, and let
  \<open>entries\<close> be the listing of its directory. The node at position \<open>j\<close> of the block
  is the line of \<open>entries ! j\<close>; it has the elbow connector if \<open>j\<close> is the last
  position of the listing and the tee connector otherwise. Its subtree is empty or the
  block of the recursive call for that entry, made with the prefix of this call
  continued by the blank segment if the entry is last in the listing and by the pipe
  segment otherwise, and every line of the subtree starts with that prefix. The two
  connectors differ, and so do the two segments. When the file limit cuts the loop short,
  the marker stands for the rest of the listing: counted with the lines, the last line of
  every block has the elbow and every line before it the tee.
\<close>

theorem connectors_follow_position:
  assumes "generate (Suc fuel) w c directory prefix depth s = Some (Inr (block, s'))"
    and "block \<noteq> []"
  shows "ELBOW \<noteq> TEE \<and> BLANK \<noteq> PIPE \<and>
    (\<forall>j<length block.
       n_connector (block ! j) = (if Suc j = length block then ELBOW else TEE)) \<and>
    (\<exists>entries. get_entries w c directory = Inr entries \<and> length block \<le> length entries \<and>
       (\<forall>j<length block.
          sibling_ok fuel w c prefix depth (entries ! j) (Suc j = length entries) (block ! j)))"
proof -
  from generate_Suc_Inr [OF assms(1)] assms(2)
  obtain entries where e: "get_entries w c directory = Inr entries"
    and wk: "walk fuel w c prefix depth (length entries) 0 entries s = Some (Inr (block, s'))"
    by blast
  from walk_siblings [OF wk] e connectors_distinct rendered_connectors [OF assms(1)]
  show ?thesis
    by auto
qed


theorem connectors_follow_position_witness:
  "generate (Suc (Suc 0)) demo_world
     (default_config\<lparr>custom_ignore := [''a*'', ''b*''], follow_links := True\<rparr>) [''w''] [] 0 fresh
     = Some (Inr ([Entry [] TEE [''w'', ''link''] ''link/'' True
                     [Entry PIPE ELBOW [''w'', ''link'', ''c.txt''] ''c.txt'' False []],
                   Entry [] TEE [''w'', ''locked''] ''locked/'' True [],
                   Entry [] ELBOW [''w'', ''sub''] ''sub/'' True
                     [Entry BLANK ELBOW [''w'', ''sub'', ''c.txt''] ''c.txt'' False []]],
                  \<lparr>file_count = 2, dir_count = 3\<rparr>)) \<and>
   sibling_ok (Suc 0) demo_world
     (default_config\<lparr>custom_ignore := [''a*'', ''b*''], follow_links := True\<rparr>) [] 0
     [''w'', ''link''] False
     (Entry [] TEE [''w'', ''link''] ''link/'' True
        [Entry PIPE ELBOW [''w'', ''link'', ''c.txt''] ''c.txt'' False []]) \<and>
   sibling_ok (Suc 0) demo_world
     (default_config\<lparr>custom_ignore := [''a*'', ''b*''], follow_links := True\<rparr>) [] 0
     [''w'', ''sub''] True
     (Entry [] ELBOW [''w'', ''sub''] ''sub/'' True
        [Entry BLANK ELBOW [''w'', ''sub'', ''c.txt''] ''c.txt'' False []])"
proof -
  let ?c = "default_config\<lparr>custom_ignore := [''a*'', ''b*''], follow_links := True\<rparr>"
  let ?b = "[Entry [] TEE [''w'', ''link''] ''link/'' True
               [Entry PIPE ELBOW [''w'', ''link'', ''c.txt''] ''c.txt'' False []],
             Entry [] TEE [''w'', ''locked''] ''locked/'' True [],
             Entry [] ELBOW [''w'', ''sub''] ''sub/'' True
               [Entry BLANK ELBOW [''w'', ''sub'', ''c.txt''] ''c.txt'' False []]]"
  have entries: "get_entries demo_world ?c [''w''] =
      Inr [[''w'', ''link''], [''w'', ''locked''], [''w'', ''sub'']]"
    "get_entries demo_world ?c [''w'', ''link''] = Inr [[''w'', ''link'', ''c.txt'']]"
    "get_entries demo_world ?c [''w'', ''locked''] = Inr []"
    "get_entries demo_world ?c [''w'', ''sub''] = Inr [[''w'', ''sub'', ''c.txt'']]"
    by (simp_all add: demo_defs)
  have names: "format_entry demo_world ?c [''w'', ''link''] = Inr ''link/''"
    "format_entry demo_world ?c [''w'', ''link'', ''c.txt''] = Inr ''c.txt''"
    "format_entry demo_world ?c [''w'', ''locked''] = Inr ''locked/''"
    "format_entry demo_world ?c [''w'', ''sub''] = Inr ''sub/''"
    "format_entry demo_world ?c [''w'', ''sub'', ''c.txt''] = Inr ''c.txt''"
    by (simp_all add: demo_defs)
  have run: "generate (Suc (Suc 0)) demo_world ?c [''w''] [] 0 fresh
      = Some (Inr (?b, \<lparr>file_count = 2, dir_count = 3\<rparr>))"
    by (simp add: entries names demo_is_dir demo_is_symlink demo_config run_defs)
  have ne: "?b \<noteq> []"
    by simp
  from connectors_follow_position [OF run ne] entries(1)
  have all: "\<And>j. j < 3 \<Longrightarrow> sibling_ok (Suc 0) demo_world ?c [] 0
      ([[''w'', ''link''], [''w'', ''locked''], [''w'', ''sub'']] ! j) (Suc j = 3) (?b ! j)"
    by (simp add: numeral_3_eq_3)
  from all [of 0] have "sibling_ok (Suc 0) demo_world ?c [] 0 [''w'', ''link''] False
      (Entry [] TEE [''w'', ''link''] ''link/'' True
         [Entry PIPE ELBOW [''w'', ''link'', ''c.txt''] ''c.txt'' False []])"
    by simp
  moreover from all [of 2] have "sibling_ok (Suc 0) demo_world ?c [] 0 [''w'', ''sub''] True
      (Entry [] ELBOW [''w'', ''sub''] ''sub/'' True
         [Entry BLANK ELBOW [''w'', ''sub'', ''c.txt''] ''c.txt'' False []])"
    by simp
  ultimately show ?thesis using run by simp
qed

subsection \<open>C3: directories before files, each group sorted\<close>

text \<open>
  Claim C3. When neither \<open>dirs_only\<close> nor \<open>files_only\<close> is set, a listing that
  \<open>_get_entries\<close> returns consists of its directories followed by its regular files,
  and nothing else. Each of the two groups is in the order of the configured key,
  descending under \<open>reverse_sort\<close>: the lower-cased base name, or the size in bytes (0
  for a directory), or the time of the last modification. The groups hold exactly the
  directories and the regular files among the children that the ignore policy kept; a
  listing denied with \<open>PermissionError\<close> gives two empty groups.
\<close>

theorem listing_dirs_before_files:
  assumes "\<not> dirs_only c" and "\<not> files_only c"
    and "get_entries w c directory = Inr entries"
  shows "entries = filter (directory_at w) entries @ filter (regular_file_at w) entries \<and>
      spec_ordered w c (filter (directory_at w) entries) \<and>
      spec_ordered w c (filter (regular_file_at w) entries) \<and>
      (case list_visible w c directory of
         Inl e \<Rightarrow> e = PermissionError \<and> entries = []
       | Inr vis \<Rightarrow>
           mset (filter (directory_at w) entries) = mset (filter (directory_at w) vis) \<and>
           mset (filter (regular_file_at w) entries) = mset (filter (regular_file_at w) vis))"
proof (cases "list_visible w c directory")
  case (Inl e)
  with assms(3) have "e = PermissionError" and "entries = []"
    by (auto simp: get_entries_def split: if_splits)
  with Inl show ?thesis
    by (simp add: spec_ordered_def in_order_def)
next
  case (Inr vis)
  with assms(3) have "arrange w c vis = Inr entries"
    by (simp add: get_entries_def)
  from arrange_grouped [OF assms(1,2) this] obtain dirs files where
    e: "entries = dirs @ files"
    and d: "mset dirs = mset (filter (directory_at w) vis)"
    and f: "mset files = mset (filter (regular_file_at w) vis)"
    and o: "spec_ordered w c dirs" "spec_ordered w c files"
    by blast
  from groups_are_filters [OF e d f]
  have g: "filter (directory_at w) entries = dirs" "filter (regular_file_at w) entries = files"
    by simp_all
  from e d f o Inr show ?thesis
    unfolding g by simp
qed

theorem listing_dirs_before_files_witness:
  "list_visible demo_world default_config [''mix'']
     = Inr [[''mix'', ''c.txt''], [''mix'', ''Zeta''], [''mix'', ''B.txt''], [''mix'', ''beta''],
            [''mix'', ''a.txt'']] \<and>
   get_entries demo_world default_config [''mix'']
     = Inr [[''mix'', ''beta''], [''mix'', ''Zeta''],
            [''mix'', ''a.txt''], [''mix'', ''B.txt''], [''mix'', ''c.txt'']] \<and>
   spec_ordered demo_world default_config [[''mix'', ''beta''], [''mix'', ''Zeta'']] \<and>
   spec_ordered demo_world default_config
     [[''mix'', ''a.txt''], [''mix'', ''B.txt''], [''mix'', ''c.txt'']] \<and>
   map (spec_name demo_world) [[''mix'', ''a.txt''], [''mix'', ''B.txt''], [''mix'', ''c.txt'']]
     = [''a.txt'', ''b.txt'', ''c.txt''] \<and>
   get_entries demo_world (default_config\<lparr>sort_by := ''size''\<rparr>) [''mix'']
     = Inr [[''mix'', ''Zeta''], [''mix'', ''beta''],
            [''mix'', ''B.txt''], [''mix'', ''a.txt''], [''mix'', ''c.txt'']] \<and>
   spec_ordered demo_world (default_config\<lparr>sort_by := ''size''\<rparr>)
     [[''mix'', ''B.txt''], [''mix'', ''a.txt''], [''mix'', ''c.txt'']] \<and>
   map (spec_size demo_world) [[''mix'', ''B.txt''], [''mix'', ''a.txt''], [''mix'', ''c.txt'']]
     = [1, 5, 9] \<and>
   get_entries demo_world (default_config\<lparr>sort_by := ''modified'', reverse_sort := True\<rparr>) [''mix'']
     = Inr [[''mix'', ''beta''], [''mix'', ''Zeta''],
            [''mix'', ''B.txt''], [''mix'', ''c.txt''], [''mix'', ''a.txt'']] \<and>
   spec_ordered demo_world (default_config\<lparr>sort_by := ''modified'', reverse_sort := True\<rparr>)
     [[''mix'', ''B.txt''], [''mix'', ''c.txt''], [''mix'', ''a.txt'']] \<and>
   map (spec_modified demo_world) [[''mix'', ''B.txt''], [''mix'', ''c.txt''], [''mix'', ''a.txt'']]
     = [3, 2, 1]"
proof -
  let ?n = "default_config"
  let ?s = "default_config\<lparr>sort_by := ''size''\<rparr>"
  let ?m = "default_config\<lparr>sort_by := ''modified'', reverse_sort := True\<rparr>"
  let ?byname = "[[''mix'', ''beta''], [''mix'', ''Zeta''],
            [''mix'', ''a.txt''], [''mix'', ''B.txt''], [''mix'', ''c.txt'']]"
  let ?bysize = "[[''mix'', ''Zeta''], [''mix'', ''beta''],
            [''mix'', ''B.txt''], [''mix'', ''a.txt''], [''mix'', ''c.txt'']]"
  let ?bytime = "[[''mix'', ''beta''], [''mix'', ''Zeta''],
            [''mix'', ''B.txt''], [''mix'', ''c.txt''], [''mix'', ''a.txt'']]"
  have flags: "\<not> dirs_only ?n" "\<not> files_only ?n" "\<not> dirs_only ?s" "\<not> files_only ?s"
      "\<not> dirs_only ?m" "\<not> files_only ?m"
    by (simp_all add: default_config_def)
  have vis: "list_visible demo_world default_config [''mix'']
     = Inr [[''mix'', ''c.txt''], [''mix'', ''Zeta''], [''mix'', ''B.txt''], [''mix'', ''beta''],
            [''mix'', ''a.txt'']]"
    by (simp add: demo_defs)
  have n: "get_entries demo_world ?n [''mix''] = Inr ?byname"
    by (simp add: demo_defs)
  have s: "get_entries demo_world ?s [''mix''] = Inr ?bysize"
    by (simp add: demo_defs)
  have m: "get_entries demo_world ?m [''mix''] = Inr ?bytime"
    by (simp add: demo_defs)
  have dn: "filter (directory_at demo_world) ?byname = [[''mix'', ''beta''], [''mix'', ''Zeta'']]"
    and fn: "filter (regular_file_at demo_world) ?byname =
      [[''mix'', ''a.txt''], [''mix'', ''B.txt''], [''mix'', ''c.txt'']]"
    and fs: "filter (regular_file_at demo_world) ?bysize =
      [[''mix'', ''B.txt''], [''mix'', ''a.txt''], [''mix'', ''c.txt'']]"
    and fm: "filter (regular_file_at demo_world) ?bytime =
      [[''mix'', ''B.txt''], [''mix'', ''c.txt''], [''mix'', ''a.txt'']]"
    by (simp_all add: directory_at_def regular_file_at_def demo_world_def table_world_def
        stat_of_def S_IFMT_def)
  from listing_dirs_before_files [OF flags(1,2) n]
  have 1: "spec_ordered demo_world ?n [[''mix'', ''beta''], [''mix'', ''Zeta'']]"
    and 2: "spec_ordered demo_world ?n [[''mix'', ''a.txt''], [''mix'', ''B.txt''], [''mix'', ''c.txt'']]"
    unfolding dn fn by simp_all
  from listing_dirs_before_files [OF flags(3,4) s]
  have 3: "spec_ordered demo_world ?s [[''mix'', ''B.txt''], [''mix'', ''a.txt''], [''mix'', ''c.txt'']]"
    unfolding fs by simp
  from listing_dirs_before_files [OF flags(5,6) m]
  have 4: "spec_ordered demo_world ?m [[''mix'', ''B.txt''], [''mix'', ''c.txt''], [''mix'', ''a.txt'']]"
    unfolding fm by simp
  have keys: "map (spec_name demo_world) [[''mix'', ''a.txt''], [''mix'', ''B.txt''], [''mix'', ''c.txt'']]
       = [''a.txt'', ''b.txt'', ''c.txt'']"
    "map (spec_size demo_world) [[''mix'', ''B.txt''], [''mix'', ''a.txt''], [''mix'', ''c.txt'']]
       = [1, 5, 9]"
    "map (spec_modified demo_world) [[''mix'', ''B.txt''], [''mix'', ''c.txt''], [''mix'', ''a.txt'']]
       = [3, 2, 1]"
    by (simp_all add: fact_defs demo_world_def table_world_def stat_of_def S_IFMT_def
        path_name_def ascii_lower_def)
  from vis n s m 1 2 3 4 keys show ?thesis
    by simp
qed

subsection \<open>C4: the ignore policy outside the working directory\<close>

text \<open>
  Claim C4 says that \<open>_should_ignore\<close> returns a boolean for every path, also for one
  that is not under the working directory. It does not: for a gitignore pattern that
  holds a slash and does not match the base name, \<open>relative_to\<close> raises
  \<open>ValueError\<close>, which nothing catches, and the run of \<open>generate\<close> on \<open>/srv\<close> from
  the working directory \<open>/w\<close> ends with that exception.
\<close>

theorem should_ignore_raises_outside_cwd:
  "should_ignore demo_world
     (default_config\<lparr>use_gitignore := True, gitignore_patterns := [''sub/c.txt'']\<rparr>)
     [''srv'', ''notes.txt''] = Inl ValueError \<and>
   generate (Suc 0) demo_world
     (default_config\<lparr>use_gitignore := True, gitignore_patterns := [''sub/c.txt'']\<rparr>)
     [''srv''] [] 0 fresh = Some (Inl ValueError)"
proof -
  let ?c = "default_config\<lparr>use_gitignore := True, gitignore_patterns := [''sub/c.txt'']\<rparr>"
  have "should_ignore demo_world ?c [''srv'', ''notes.txt''] = Inl ValueError"
    by (simp add: demo_defs)
  moreover have "get_entries demo_world ?c [''srv''] = Inl ValueError"
    by (simp add: demo_defs)
  then have "generate (Suc 0) demo_world ?c [''srv''] [] 0 fresh = Some (Inl ValueError)"
    by (simp add: demo_is_dir demo_config run_defs)
  ultimately show ?thesis by simp
qed

subsection \<open>C5: metadata failures while sorting\<close>

text \<open>
  Claim C5 says that a failed metadata read never leaves the place where it happens.
  \<open>_format_entry\<close> catches it, but the sort key for \<open>modified\<close> calls \<open>stat\<close>
  unguarded: a dangling symbolic link in the directory makes the sort, and with it the
  whole run, end with \<open>FileNotFoundError\<close>.
\<close>

theorem sort_by_modified_raises_on_dangling_link:
  "os_stat demo_world [''w'', ''gone''] = Inl FileNotFoundError \<and>
   get_entries demo_world (default_config\<lparr>sort_by := ''modified''\<rparr>) [''w'']
     = Inl FileNotFoundError \<and>
   generate (Suc 0) demo_world (default_config\<lparr>sort_by := ''modified''\<rparr>) [''w''] [] 0 fresh
     = Some (Inl FileNotFoundError)"
proof -
  let ?c = "default_config\<lparr>sort_by := ''modified''\<rparr>"
  have "os_stat demo_world [''w'', ''gone''] = Inl FileNotFoundError"
    by (simp add: demo_world_def table_world_def stat_of_def)
  moreover have e: "get_entries demo_world ?c [''w''] = Inl FileNotFoundError"
    by (simp add: demo_defs)
  then have "generate (Suc 0) demo_world ?c [''w''] [] 0 fresh = Some (Inl FileNotFoundError)"
    by (simp add: demo_is_dir demo_config run_defs)
  ultimately show ?thesis using e by simp
qed

subsection \<open>C6: terminal conditions and the depth limit\<close>

text \<open>
  Claim C6. A call of \<open>generate\<close> returns the empty block and leaves the counters as
  they are when \<open>max_depth\<close> is set and the depth has reached it, or \<open>max_files\<close> is
  set and \<open>file_count\<close> has reached it, or the directory test answers \<open>False\<close>; this
  for any fuel that allows the call itself. The test answers \<open>False\<close> exactly when
  \<open>stat\<close> shows something that is not a directory, or fails because there is nothing
  at the path (a missing path, a dangling or looping link); a \<open>stat\<close> that fails in
  another way, such as a denied permission, is no answer: the error leaves the test and
  the call (\<open>is_dir_raises\<close>). Consequently, with \<open>max_depth = k\<close>, every line of a
  returned block was appended at a depth below \<open>k\<close>: \<open>block_levels\<close> pairs each line
  with the number of nested calls that led to its directory.
\<close>

theorem generate_terminal_conditions:
  "((\<exists>k. max_depth c = Some k \<and> k \<le> int depth) \<or>
    (\<exists>m. max_files c = Some m \<and> m \<le> int (file_count s)) \<or>
    is_dir w directory = Inr False
      \<longrightarrow> generate (Suc fuel) w c directory prefix depth s = Some (Inr ([], s))) \<and>
   (is_dir w directory = Inr False \<longleftrightarrow>
      (case os_stat w directory of
         Inl e \<Rightarrow> ignore_error e \<or> e = ValueError
       | Inr st \<Rightarrow> S_IFMT (st_mode st) \<noteq> 4)) \<and>
   (max_depth c = Some k \<and> generate fuel w c directory prefix depth s = Some (Inr (block, s'))
      \<longrightarrow> (\<forall>(d, x) \<in> set (block_levels depth block). int d < k))"
proof (intro conjI impI)
  assume "(\<exists>k. max_depth c = Some k \<and> k \<le> int depth) \<or>
    (\<exists>m. max_files c = Some m \<and> m \<le> int (file_count s)) \<or> is_dir w directory = Inr False"
  then have "depth_reached c depth \<or> limit_reached c s \<or> is_dir w directory = Inr False"
    by (auto simp: depth_reached_def limit_reached_def)
  then show "generate (Suc fuel) w c directory prefix depth s = Some (Inr ([], s))"
    by auto
next
  show "is_dir w directory = Inr False \<longleftrightarrow>
      (case os_stat w directory of
         Inl e \<Rightarrow> ignore_error e \<or> e = ValueError
       | Inr st \<Rightarrow> S_IFMT (st_mode st) \<noteq> 4)"
    by (rule is_dir_False)
next
  assume "max_depth c = Some k \<and>
    generate fuel w c directory prefix depth s = Some (Inr (block, s'))"
  then show "\<forall>(d, x) \<in> set (block_levels depth block). int d < k"
    using generate_levels [of c k fuel w directory prefix depth s block s'] by blast
qed

theorem generate_terminal_conditions_witness:
  "max_depth (default_config\<lparr>max_depth := Some 1\<rparr>) = Some 1 \<and>
   generate (Suc 0) demo_world (default_config\<lparr>max_depth := Some 1\<rparr>) [''w'', ''sub''] [] 1 fresh
     = Some (Inr ([], fresh)) \<and>
   is_dir demo_world [''w'', ''a.txt''] = Inr False \<and>
   generate (Suc 0) demo_world default_config [''w'', ''a.txt''] [] 0 fresh
     = Some (Inr ([], fresh)) \<and>
   is_dir demo_world [''w'', ''gone''] = Inr False \<and>
   generate (Suc 0) demo_world default_config [''w'', ''gone''] [] 0 fresh
     = Some (Inr ([], fresh)) \<and>
   generate (Suc (Suc 0)) demo_world (default_config\<lparr>max_depth := Some 1\<rparr>) [''w'', ''sub''] [] 0 fresh
     = Some (Inr ([Entry [] ELBOW [''w'', ''sub'', ''c.txt''] ''c.txt'' False []],
                  \<lparr>file_count = 1, dir_count = 0\<rparr>)) \<and>
   list_all (\<lambda>(d, x). int d < 1)
     (block_levels 0 [Entry [] ELBOW [''w'', ''sub'', ''c.txt''] ''c.txt'' False []])"
proof -
  let ?c = "default_config\<lparr>max_depth := Some 1\<rparr>"
  let ?b = "[Entry [] ELBOW [''w'', ''sub'', ''c.txt''] ''c.txt'' False []]"
  have k: "max_depth ?c = Some 1"
    by simp
  have entries: "get_entries demo_world ?c [''w'', ''sub''] = Inr [[''w'', ''sub'', ''c.txt'']]"
    by (simp add: demo_defs)
  have names: "format_entry demo_world ?c [''w'', ''sub'', ''c.txt''] = Inr ''c.txt''"
    by (simp add: demo_defs)
  have run: "generate (Suc (Suc 0)) demo_world ?c [''w'', ''sub''] [] 0 fresh
      = Some (Inr (?b, \<lparr>file_count = 1, dir_count = 0\<rparr>))"
    by (simp add: entries names demo_is_dir demo_is_symlink demo_config run_defs)
  have stop: "generate (Suc 0) demo_world ?c [''w'', ''sub''] [] 1 fresh = Some (Inr ([], fresh))"
    using generate_terminal_conditions
      [where c = ?c and depth = 1 and s = fresh and w = demo_world
         and directory = "[''w'', ''sub'']" and fuel = 0 and prefix = "[]"] k
    by simp
  have reg: "generate (Suc 0) demo_world default_config [''w'', ''a.txt''] [] 0 fresh
      = Some (Inr ([], fresh))"
    using generate_terminal_conditions
      [where c = default_config and depth = 0 and s = fresh and w = demo_world
         and directory = "[''w'', ''a.txt'']" and fuel = 0 and prefix = "[]"] demo_is_dir(5)
    by simp
  have gone: "generate (Suc 0) demo_world default_config [''w'', ''gone''] [] 0 fresh
      = Some (Inr ([], fresh))"
    using generate_terminal_conditions
      [where c = default_config and depth = 0 and s = fresh and w = demo_world
         and directory = "[''w'', ''gone'']" and fuel = 0 and prefix = "[]"] demo_is_dir(6)
    by simp
  have lev: "list_all (\<lambda>(d, x). int d < 1) (block_levels 0 ?b)"
    using generate_terminal_conditions
      [where c = ?c and depth = 0 and s = fresh and w = demo_world
         and directory = "[''w'', ''sub'']" and fuel = "Suc (Suc 0)" and prefix = "[]"
         and k = 1 and block = ?b and s' = "\<lparr>file_count = 1, dir_count = 0\<rparr>"] k run
    by (simp add: list_all_iff)
  from k stop reg gone run lev demo_is_dir(5,6) show ?thesis by blast
qed

subsection \<open>C7: the rules of the ignore policy\<close>

text \<open>
  Claim C7 as stated, with three rules and \<open>False\<close> when none of them matches, fails:
  a gitignore pattern that holds a slash is also matched against the path relative to the
  working directory, and that match excludes \<open>/w/sub/c.txt\<close> for the pattern
  \<open>sub/c.txt\<close> although none of the three rules does.
\<close>

theorem relative_pattern_is_a_fourth_rule:
  "should_ignore demo_world
     (default_config\<lparr>use_gitignore := True, gitignore_patterns := [''sub/c.txt'']\<rparr>)
     [''w'', ''sub'', ''c.txt''] = Inr True \<and>
   \<not> three_rules demo_world
     (default_config\<lparr>use_gitignore := True, gitignore_patterns := [''sub/c.txt'']\<rparr>)
     [''w'', ''sub'', ''c.txt'']"
  by (simp add: rule_defs demo_defs)


text \<open>
  Claim C7, amended. For every entry the hidden-file rule returns \<open>True\<close> first, then
  the custom patterns, whatever the gitignore patterns would do. The gitignore rule is
  stated for two cases. For an entry under the working directory, the gitignore
  patterns, with their trailing slashes stripped, are each matched against the base
  name and, if the pattern holds a slash, against the path relative to the working
  directory, and the result is the disjunction of the hidden-file rule, the custom
  patterns and these matches. For any entry, when no stripped pattern holds a slash,
  the gitignore patterns are matched against the base name only and the result is that
  of the three rules of the claim. In both cases the result is \<open>False\<close> when none
  matches. The result does not depend on what \<open>stat\<close>, \<open>lstat\<close> and \<open>listdir\<close>
  answer, so directories and files are treated alike. Nothing is said here of an entry
  outside the working directory under a pattern that holds a slash (see C4).
\<close>

theorem should_ignore_rules:
  "(rule_hidden c p \<longrightarrow> should_ignore w c p = Inr True) \<and>
   (rule_custom w c p \<longrightarrow> should_ignore w c p = Inr True) \<and>
   (relative_to p (cwd w) = Inr rel \<longrightarrow>
      should_ignore w c p =
        Inr (rule_hidden c p \<or> rule_custom w c p \<or> rule_gitignore_name w c p \<or>
             rule_gitignore_path w c rel)) \<and>
   ((\<forall>pat \<in> set (gitignore_patterns c). CHR ''/'' \<notin> set (rstrip_slash pat)) \<longrightarrow>
      should_ignore w c p = Inr (three_rules w c p)) \<and>
   should_ignore (w\<lparr>os_stat := st, os_lstat := lst, os_listdir := ls\<rparr>) c p = should_ignore w c p"
proof (intro conjI impI)
  assume "rule_hidden c p"
  then show "should_ignore w c p = Inr True"
    by (simp add: should_ignore_def rule_hidden_def)
next
  assume "rule_custom w c p"
  then show "should_ignore w c p = Inr True"
    by (auto simp: should_ignore_def rule_custom_def list_ex_iff Let_def)
next
  assume "relative_to p (cwd w) = Inr rel"
  from gitignore_loop_under_cwd [OF this]
  show "should_ignore w c p =
        Inr (rule_hidden c p \<or> rule_custom w c p \<or> rule_gitignore_name w c p \<or>
             rule_gitignore_path w c rel)"
    by (auto simp: should_ignore_def rule_hidden_def rule_custom_def rule_gitignore_name_def
        rule_gitignore_path_def list_ex_iff Let_def)
next
  assume "\<forall>pat \<in> set (gitignore_patterns c). CHR ''/'' \<notin> set (rstrip_slash pat)"
  from gitignore_loop_no_slash [OF this]
  show "should_ignore w c p = Inr (three_rules w c p)"
    by (auto simp: should_ignore_def three_rules_def rule_hidden_def rule_custom_def
        rule_gitignore_name_def list_ex_iff Let_def)
next
  show "should_ignore (w\<lparr>os_stat := st, os_lstat := lst, os_listdir := ls\<rparr>) c p =
      should_ignore w c p"
    using gitignore_loop_world [of "w\<lparr>os_stat := st, os_lstat := lst, os_listdir := ls\<rparr>" w]
    by (simp add: should_ignore_def Let_def)
qed

theorem should_ignore_rules_witness:
  "should_ignore demo_world default_config [''w'', ''.secret''] = Inr True \<and>
   should_ignore demo_world (default_config\<lparr>custom_ignore := [''a*'']\<rparr>) [''w'', ''a.txt''] = Inr True \<and>
   should_ignore demo_world
     (default_config\<lparr>use_gitignore := True, gitignore_patterns := [''sub/'']\<rparr>) [''w'', ''sub'']
     = Inr True \<and>
   should_ignore demo_world
     (default_config\<lparr>use_gitignore := True, gitignore_patterns := [''sub/'']\<rparr>) [''w'', ''b.txt'']
     = Inr False \<and>
   should_ignore demo_world
     (default_config\<lparr>use_gitignore := True, gitignore_patterns := [''sub/'']\<rparr>) [''srv'', ''notes.txt'']
     = Inr False"
proof -
  let ?g = "default_config\<lparr>use_gitignore := True, gitignore_patterns := [''sub/'']\<rparr>"
  have 1: "should_ignore demo_world default_config [''w'', ''.secret''] = Inr True"
    using should_ignore_rules [where c = default_config and p = "[''w'', ''.secret'']"
        and w = demo_world]
    by (simp add: rule_defs demo_defs)
  have 2: "should_ignore demo_world (default_config\<lparr>custom_ignore := [''a*'']\<rparr>)
      [''w'', ''a.txt''] = Inr True"
    using should_ignore_rules [where c = "default_config\<lparr>custom_ignore := [''a*'']\<rparr>"
        and p = "[''w'', ''a.txt'']" and w = demo_world]
    by (simp add: rule_defs demo_world_def table_world_def default_config_def path_name_def)
  have r3: "relative_to [''w'', ''sub''] (cwd demo_world) = Inr [''sub'']"
    by (simp add: demo_defs)
  have 3: "should_ignore demo_world ?g [''w'', ''sub''] = Inr True"
    using should_ignore_rules [where c = ?g and p = "[''w'', ''sub'']" and w = demo_world
        and rel = "[''sub'']"] r3
    by (simp add: rule_defs demo_world_def table_world_def default_config_def path_name_def
        startswith_dot_def rstrip_slash_def)
  have r4: "relative_to [''w'', ''b.txt''] (cwd demo_world) = Inr [''b.txt'']"
    by (simp add: demo_defs)
  have 4: "should_ignore demo_world ?g [''w'', ''b.txt''] = Inr False"
    using should_ignore_rules [where c = ?g and p = "[''w'', ''b.txt'']" and w = demo_world
        and rel = "[''b.txt'']"] r4
    by (simp add: rule_defs demo_world_def table_world_def default_config_def path_name_def
        startswith_dot_def rstrip_slash_def rel_str_def)
  have 5: "should_ignore demo_world ?g [''srv'', ''notes.txt''] = Inr False"
    using should_ignore_rules [where c = ?g and p = "[''srv'', ''notes.txt'']" and w = demo_world]
    by (simp add: rule_defs demo_world_def table_world_def default_config_def path_name_def
        startswith_dot_def rstrip_slash_def)
  from 1 2 3 4 5 show ?thesis by blast
qed

subsection \<open>C8: a listing that fails\<close>

text \<open>
  Claim C8 as stated, for any error of the listing, fails: \<open>_get_entries\<close> catches
  \<open>PermissionError\<close> only, and the I/O error of listing \<open>/io\<close> leaves
  \<open>_get_entries\<close> and \<open>generate\<close>.
\<close>

theorem listing_error_propagates:
  "os_listdir demo_world [''io''] = Inl OSError \<and>
   get_entries demo_world default_config [''io''] = Inl OSError \<and>
   get_entries demo_world default_config [''io''] \<noteq> Inr [] \<and>
   generate (Suc 0) demo_world default_config [''io''] [] 0 fresh = Some (Inl OSError)"
proof -
  have "os_listdir demo_world [''io''] = Inl OSError"
    by (simp add: demo_world_def table_world_def)
  moreover have e: "get_entries demo_world default_config [''io''] = Inl OSError"
    by (simp add: demo_defs)
  then have "generate (Suc 0) demo_world default_config [''io''] [] 0 fresh = Some (Inl OSError)"
    by (simp add: demo_is_dir demo_config run_defs)
  ultimately show ?thesis using e by simp
qed

text \<open>
  Claim C8, amended. If listing a directory fails with \<open>PermissionError\<close>, then
  \<open>_get_entries\<close> returns the empty list, and \<open>generate\<close> returns the empty block
  with the counters unchanged. The one way for \<open>generate\<close> not to do so lies before
  the listing: no limit is reached and the directory test itself raises.
\<close>

theorem permission_error_lists_nothing:
  assumes "os_listdir w directory = Inl PermissionError"
  shows "get_entries w c directory = Inr [] \<and>
         generate (Suc fuel) w c directory prefix depth s =
           (case is_dir w directory of
              Inl e \<Rightarrow> if depth_reached c depth \<or> limit_reached c s then Some (Inr ([], s))
                       else Some (Inl e)
            | Inr b \<Rightarrow> Some (Inr ([], s)))"
proof -
  from assms have e: "get_entries w c directory = Inr []"
    by (simp add: get_entries_def list_visible_def)
  then show ?thesis
    by (simp split: sum.splits bool.splits)
qed

theorem permission_error_lists_nothing_witness:
  "os_listdir demo_world [''w'', ''locked''] = Inl PermissionError \<and>
   get_entries demo_world default_config [''w'', ''locked''] = Inr [] \<and>
   generate (Suc 0) demo_world default_config [''w'', ''locked''] BLANK 1 fresh
     = Some (Inr ([], fresh))"
proof -
  have l: "os_listdir demo_world [''w'', ''locked''] = Inl PermissionError"
    by (simp add: demo_world_def table_world_def)
  from permission_error_lists_nothing [OF l, of default_config 0 BLANK 1 fresh] l
  show ?thesis by (simp add: demo_is_dir)
qed

subsection \<open>C9: entries that are neither directories nor regular files\<close>

text \<open>
  Claim C9 says that under every configuration an entry that is neither a directory
  nor a regular file is silently left out. Under the default configuration the dangling
  link \<open>/w/gone\<close> and the pipe \<open>/w/fifo\<close> are. With \<open>sort_by = modified\<close> the
  sort runs before the regrouping and reads the time of every entry: the dangling link,
  which the ignore policy kept, makes \<open>_get_entries\<close> and the whole run end with
  \<open>FileNotFoundError\<close>. And a child whose \<open>stat\<close> is denied, \<open>/dep/vault\<close>, makes
  the type test of the filter or of the regrouping raise \<open>PermissionError\<close>, which
  nothing catches there.
\<close>

theorem broken_link_not_silently_excluded:
  "should_ignore demo_world (default_config\<lparr>sort_by := ''modified''\<rparr>) [''w'', ''gone'']
     = Inr False \<and>
   \<not> directory_at demo_world [''w'', ''gone''] \<and>
   \<not> regular_file_at demo_world [''w'', ''gone''] \<and>
   get_entries demo_world default_config [''w'']
     = Inr [[''w'', ''link''], [''w'', ''locked''], [''w'', ''sub''], [''w'', ''a.txt''],
            [''w'', ''b.txt'']] \<and>
   get_entries demo_world (default_config\<lparr>sort_by := ''modified''\<rparr>) [''w'']
     = Inl FileNotFoundError \<and>
   generate (Suc (Suc 0)) demo_world (default_config\<lparr>sort_by := ''modified''\<rparr>) [''w''] [] 0 fresh
     = Some (Inl FileNotFoundError) \<and>
   should_ignore demo_world default_config [''dep'', ''vault''] = Inr False \<and>
   \<not> directory_at demo_world [''dep'', ''vault''] \<and>
   \<not> regular_file_at demo_world [''dep'', ''vault''] \<and>
   get_entries demo_world default_config [''dep''] = Inl PermissionError \<and>
   get_entries demo_world (default_config\<lparr>dirs_only := True\<rparr>) [''dep''] = Inl PermissionError \<and>
   generate (Suc (Suc 0)) demo_world default_config [''dep''] [] 0 fresh
     = Some (Inl PermissionError)"
proof -
  let ?m = "default_config\<lparr>sort_by := ''modified''\<rparr>"
  have kept: "should_ignore demo_world ?m [''w'', ''gone''] = Inr False"
    "should_ignore demo_world default_config [''dep'', ''vault''] = Inr False"
    by (simp_all add: demo_defs)
  have neither: "\<not> directory_at demo_world [''w'', ''gone'']"
    "\<not> regular_file_at demo_world [''w'', ''gone'']"
    "\<not> directory_at demo_world [''dep'', ''vault'']"
    "\<not> regular_file_at demo_world [''dep'', ''vault'']"
    by (simp_all add: directory_at_def regular_file_at_def demo_world_def table_world_def
        stat_of_def)
  have quiet: "get_entries demo_world default_config [''w'']
     = Inr [[''w'', ''link''], [''w'', ''locked''], [''w'', ''sub''], [''w'', ''a.txt''],
            [''w'', ''b.txt'']]"
    by (simp add: demo_defs)
  have gone: "get_entries demo_world ?m [''w''] = Inl FileNotFoundError"
    by (simp add: demo_defs)
  then have gone_run: "generate (Suc (Suc 0)) demo_world ?m [''w''] [] 0 fresh
      = Some (Inl FileNotFoundError)"
    by (simp add: demo_is_dir demo_config run_defs)
  have vault: "get_entries demo_world default_config [''dep''] = Inl PermissionError"
    "get_entries demo_world (default_config\<lparr>dirs_only := True\<rparr>) [''dep''] = Inl PermissionError"
    by (simp_all add: demo_defs)
  then have vault_run: "generate (Suc (Suc 0)) demo_world default_config [''dep''] [] 0 fresh
      = Some (Inl PermissionError)"
    by (simp add: demo_is_dir demo_config run_defs)
  from kept neither quiet gone gone_run vault vault_run show ?thesis
    by simp
qed

subsection \<open>C10: a symbolic link to a directory, not followed\<close>

text \<open>
  Claim C10. Without \<open>follow_links\<close>, the loop step for an entry that is a symbolic
  link to a directory appends the line of the entry, whose name ends with a slash, with
  an empty subtree, adds one to \<open>dir_count\<close>, leaves \<open>file_count\<close> alone and goes on
  with the next entry: there is no recursive call. Over a whole run every line of such
  an entry is a directory line with nothing beneath it, and \<open>dir_count\<close> grows by
  the number of directory lines.
\<close>

theorem symlinked_directory_listed_not_entered:
  assumes "\<not> follow_links c"
  shows "(directory_at w entry \<and> symlink_at w entry \<and> \<not> limit_reached c s \<longrightarrow>
      (\<exists>name. format_entry w c entry = Inr name \<and> ends_with_slash name \<and>
         walk fuel w c prefix depth n i (entry # rest) s =
           (case walk fuel w c prefix depth n (Suc i) rest (s\<lparr>dir_count := dir_count s + 1\<rparr>) of
              None \<Rightarrow> None
            | Some (Inl e) \<Rightarrow> Some (Inl e)
            | Some (Inr (out, s3)) \<Rightarrow>
                Some (Inr (Entry prefix (if Suc i = n then ELBOW else TEE) entry
                             name True [] # out, s3))))) \<and>
    (generate fuel w c directory prefix depth s = Some (Inr (block, s')) \<longrightarrow>
      (\<forall>x \<in> set (block_lines block). unfollowed_link w x) \<and>
      dir_count s' = dir_count s + length (filter is_dir_line (block_lines block)))"
proof (intro conjI impI)
  assume a: "directory_at w entry \<and> symlink_at w entry \<and> \<not> limit_reached c s"
  then have d: "is_dir w entry = Inr True" and l: "is_symlink w entry = Inr True"
    and nl: "\<not> limit_reached c s"
    by (simp_all add: is_dir_True is_symlink_True)
  from a format_entry_dir [of w entry c] obtain name where
    name: "format_entry w c entry = Inr name"
    by blast
  from a name have slash: "ends_with_slash name"
    using format_entry_dir_slash by blast
  from d l assms have b: "descends w c entry = Inr False"
    by (simp add: descends_False)
  have "walk fuel w c prefix depth n i (entry # rest) s =
        (case walk fuel w c prefix depth n (Suc i) rest (s\<lparr>dir_count := dir_count s + 1\<rparr>) of
           None \<Rightarrow> None
         | Some (Inl e) \<Rightarrow> Some (Inl e)
         | Some (Inr (out, s3)) \<Rightarrow>
             Some (Inr (Entry prefix (if Suc i = n then ELBOW else TEE) entry
                          name True [] # out, s3)))"
    using nl name d b
    by (simp add: count_entry_def Let_def split: option.splits sum.splits prod.splits)
  with name slash show "\<exists>name. format_entry w c entry = Inr name \<and> ends_with_slash name \<and>
         walk fuel w c prefix depth n i (entry # rest) s =
           (case walk fuel w c prefix depth n (Suc i) rest (s\<lparr>dir_count := dir_count s + 1\<rparr>) of
              None \<Rightarrow> None
            | Some (Inl e) \<Rightarrow> Some (Inl e)
            | Some (Inr (out, s3)) \<Rightarrow>
                Some (Inr (Entry prefix (if Suc i = n then ELBOW else TEE) entry
                             name True [] # out, s3)))"
    by blast
next
  assume "generate fuel w c directory prefix depth s = Some (Inr (block, s'))"
  then show "\<forall>x \<in> set (block_lines block). unfollowed_link w x"
    using generate_unfollowed [OF assms] by blast
next
  assume "generate fuel w c directory prefix depth s = Some (Inr (block, s'))"
  then show "dir_count s' = dir_count s + length (filter is_dir_line (block_lines block))"
    using generate_counts by blast
qed

theorem symlinked_directory_listed_not_entered_witness:
  "directory_at demo_world [''w'', ''link''] \<and> symlink_at demo_world [''w'', ''link''] \<and>
   walk (Suc (Suc 0)) demo_world default_config [] 0 5 0 [[''w'', ''link'']] fresh
     = Some (Inr ([Entry [] TEE [''w'', ''link''] ''link/'' True []],
                  \<lparr>file_count = 0, dir_count = 1\<rparr>)) \<and>
   generate (Suc (Suc 0)) demo_world default_config [''w''] [] 0 fresh
     = Some (Inr ([Entry [] TEE [''w'', ''link''] ''link/'' True [],
                   Entry [] TEE [''w'', ''locked''] ''locked/'' True [],
                   Entry [] TEE [''w'', ''sub''] ''sub/'' True
                     [Entry PIPE ELBOW [''w'', ''sub'', ''c.txt''] ''c.txt'' False []],
                   Entry [] TEE [''w'', ''a.txt''] ''a.txt'' False [],
                   Entry [] ELBOW [''w'', ''b.txt''] ''b.txt'' False []],
                  \<lparr>file_count = 3, dir_count = 3\<rparr>)) \<and>
   unfollowed_link demo_world (Entry [] TEE [''w'', ''link''] ''link/'' True []) \<and>
   ends_with_slash ''link/''"
proof -
  let ?b = "[Entry [] TEE [''w'', ''link''] ''link/'' True [],
      Entry [] TEE [''w'', ''locked''] ''locked/'' True [],
      Entry [] TEE [''w'', ''sub''] ''sub/'' True
        [Entry PIPE ELBOW [''w'', ''sub'', ''c.txt''] ''c.txt'' False []],
      Entry [] TEE [''w'', ''a.txt''] ''a.txt'' False [],
      Entry [] ELBOW [''w'', ''b.txt''] ''b.txt'' False []]"
  have nf: "\<not> follow_links default_config"
    by (simp add: default_config_def)
  have link: "directory_at demo_world [''w'', ''link'']" "symlink_at demo_world [''w'', ''link'']"
    by (simp_all add: directory_at_def symlink_at_def demo_world_def table_world_def stat_of_def
        S_IFMT_def)
  have nl: "\<not> limit_reached default_config fresh"
    by (simp add: limit_reached_def default_config_def)
  have entries: "get_entries demo_world default_config [''w''] =
      Inr [[''w'', ''link''], [''w'', ''locked''], [''w'', ''sub''], [''w'', ''a.txt''], [''w'', ''b.txt'']]"
    "get_entries demo_world default_config [''w'', ''sub''] = Inr [[''w'', ''sub'', ''c.txt'']]"
    "get_entries demo_world default_config [''w'', ''locked''] = Inr []"
    by (simp_all add: demo_defs)
  have names: "format_entry demo_world default_config [''w'', ''link''] = Inr ''link/''"
    "format_entry demo_world default_config [''w'', ''locked''] = Inr ''locked/''"
    "format_entry demo_world default_config [''w'', ''sub''] = Inr ''sub/''"
    "format_entry demo_world default_config [''w'', ''sub'', ''c.txt''] = Inr ''c.txt''"
    "format_entry demo_world default_config [''w'', ''a.txt''] = Inr ''a.txt''"
    "format_entry demo_world default_config [''w'', ''b.txt''] = Inr ''b.txt''"
    by (simp_all add: demo_defs)
  have run: "generate (Suc (Suc 0)) demo_world default_config [''w''] [] 0 fresh
      = Some (Inr (?b, \<lparr>file_count = 3, dir_count = 3\<rparr>))"
    by (simp add: entries names demo_is_dir demo_is_symlink demo_config run_defs)
  note inst = symlinked_directory_listed_not_entered
    [OF nf, where w = demo_world and entry = "[''w'', ''link'']" and s = fresh
       and fuel = "Suc (Suc 0)" and prefix = "[]" and depth = 0 and directory = "[''w'']"
       and block = ?b and s' = "\<lparr>file_count = 3, dir_count = 3\<rparr>"]
  from inst [where n = 5 and i = 0 and rest = "[]"] link nl names(1)
  have step: "walk (Suc (Suc 0)) demo_world default_config [] 0 5 0 [[''w'', ''link'']] fresh
     = Some (Inr ([Entry [] TEE [''w'', ''link''] ''link/'' True []],
                  \<lparr>file_count = 0, dir_count = 1\<rparr>))"
    by (simp add: fresh_def del: walk.simps(2) generate.simps)
  from inst [where n = 5 and i = 0 and rest = "[]"] run
  have "unfollowed_link demo_world (Entry [] TEE [''w'', ''link''] ''link/'' True [])"
    by simp
  moreover from inst [where n = 5 and i = 0 and rest = "[]"] link nl names(1)
  have "ends_with_slash ''link/''"
    by (simp del: walk.simps generate.simps)
  ultimately show ?thesis using step run link
    by blast
qed

end
